theory Spec2Isabelle
  imports Complex_Main "HOL-Library.Word" "HOL-Library.Signed_Division" "HOL-Library.Sublist"
begin

unbundle bit_operations_syntax

section \<open>Depth-function resolution\<close>

text \<open>
  The enumerations \<open>HdCompareFunction\<close> and \<open>HdDepthPriority\<close> are declared in
  \<open>pxr/imaging/hd/enums.h\<close>; the constructors below are listed in the order in which the rows
  and columns of the table \<open>ResolvedDepthFunc\<close> of \<open>drawTargetTask.cpp\<close> are
  commented, which is the order of their enumerators.
\<close>

datatype HdCompareFunction =
    HdCmpFuncNever
  | HdCmpFuncLess
  | HdCmpFuncEqual
  | HdCmpFuncLEqual
  | HdCmpFuncGreater
  | HdCmpFuncNotEqual
  | HdCmpFuncGEqual
  | HdCmpFuncAlways

datatype HdDepthPriority =
    HdDepthPriorityNearest
  | HdDepthPriorityFarthest

text \<open>The integer value of an enumerator, used as an array index by the source.\<close>

fun cmpFuncIndex :: "HdCompareFunction \<Rightarrow> nat" where
  "cmpFuncIndex HdCmpFuncNever = 0"
| "cmpFuncIndex HdCmpFuncLess = 1"
| "cmpFuncIndex HdCmpFuncEqual = 2"
| "cmpFuncIndex HdCmpFuncLEqual = 3"
| "cmpFuncIndex HdCmpFuncGreater = 4"
| "cmpFuncIndex HdCmpFuncNotEqual = 5"
| "cmpFuncIndex HdCmpFuncGEqual = 6"
| "cmpFuncIndex HdCmpFuncAlways = 7"

fun depthPriorityIndex :: "HdDepthPriority \<Rightarrow> nat" where
  "depthPriorityIndex HdDepthPriorityNearest = 0"
| "depthPriorityIndex HdDepthPriorityFarthest = 1"

text \<open>The static table \<open>ResolvedDepthFunc[HdDepthPriorityCount][HdCmpFuncLast]\<close>.\<close>

definition ResolvedDepthFunc :: "HdCompareFunction list list" where
  "ResolvedDepthFunc =
    [ \<comment> \<open>HdDepthPriorityNearest\<close>
      [ HdCmpFuncNever, HdCmpFuncLess, HdCmpFuncEqual, HdCmpFuncLEqual,
        HdCmpFuncGreater, HdCmpFuncNotEqual, HdCmpFuncGEqual, HdCmpFuncAlways ],
      \<comment> \<open>HdDepthPriorityFarthest\<close>
      [ HdCmpFuncNever, HdCmpFuncGEqual, HdCmpFuncEqual, HdCmpFuncGreater,
        HdCmpFuncLEqual, HdCmpFuncNotEqual, HdCmpFuncLess, HdCmpFuncAlways ] ]"

definition HdxDrawTargetTask_GetResolvedDepthFunc ::
  "HdCompareFunction \<Rightarrow> HdDepthPriority \<Rightarrow> HdCompareFunction" where
  "HdxDrawTargetTask_GetResolvedDepthFunc depthFunc priority =
     ResolvedDepthFunc ! depthPriorityIndex priority ! cmpFuncIndex depthFunc"

section \<open>Draw targets and their dependencies\<close>

text \<open>
  \<open>SdfPath\<close> and \<open>TfToken\<close> are types of other libraries of the repository; a path is
  represented by its text. The member function \<open>SdfPath::HasPrefix\<close> is not part of
  \<open>drawTargetTask.cpp\<close>: every function below that calls it takes it as the parameter
  \<open>HasPrefix\<close>, where \<open>HasPrefix path prefix\<close> stands for \<open>path.HasPrefix(prefix)\<close>.
\<close>

type_synonym SdfPath = string
type_synonym TfToken = string

record HdRprimCollection =
  GetRootPaths :: "SdfPath list"
  GetExcludePaths :: "SdfPath list"

text \<open>
  The part of \<open>HdStDrawTargetRenderPassState\<close> that the task reads: the camera id, the depth
  priority and the AOV bindings (opaque, only copied).
\<close>

record HdStDrawTargetRenderPassState =
  GetCamera :: SdfPath
  GetDepthPriority :: HdDepthPriority
  GetAovBindings :: "string list"

text \<open>
  The part of \<open>HdStDrawTarget\<close> that the task reads, one field per accessor. The version
  is an \<open>unsigned int\<close>, the resolution a \<open>GfVec2i\<close> (two C++ \<open>int\<close>s), and the Glf
  draw target a reference-counted pointer that may be null (\<open>None\<close>).
\<close>

record HdStDrawTarget =
  GetId :: SdfPath
  IsEnabled :: bool
  GetVersion :: "32 word"
  GetCollection :: HdRprimCollection
  GetResolution :: "int \<times> int"
  GetRenderPassState :: HdStDrawTargetRenderPassState
  GetGlfDrawTarget :: "nat option"

text \<open>
  A \<open>HdStDrawTarget *\<close> is an address or the null pointer (\<open>None\<close>); the objects live in a
  store \<open>heap\<close> from addresses to draw targets, so that two entries of a vector can be the
  same object.
\<close>

type_synonym HdStDrawTargetPtr = "nat option"
type_synonym HdStDrawTargetHeap = "nat \<Rightarrow> HdStDrawTarget"

definition DoesCollectionContainPath ::
  "(SdfPath \<Rightarrow> SdfPath \<Rightarrow> bool) \<Rightarrow> HdRprimCollection \<Rightarrow> SdfPath \<Rightarrow> bool" where
  "DoesCollectionContainPath HasPrefix collection path =
     (if list_ex (\<lambda>excludePath. HasPrefix path excludePath) (GetExcludePaths collection)
      then False
      else if list_ex (\<lambda>rootPath. HasPrefix path rootPath) (GetRootPaths collection)
      then True
      else False)"

definition IsDependentOn ::
  "(SdfPath \<Rightarrow> SdfPath \<Rightarrow> bool) \<Rightarrow> HdStDrawTargetHeap \<Rightarrow>
   HdStDrawTargetPtr \<Rightarrow> HdStDrawTargetPtr \<Rightarrow> bool" where
  "IsDependentOn HasPrefix heap drawTarget otherDrawTarget =
     (case drawTarget of
        None \<Rightarrow> False
      | Some a \<Rightarrow>
          (case otherDrawTarget of
             None \<Rightarrow> False
           | Some b \<Rightarrow>
               a \<noteq> b \<and>
               DoesCollectionContainPath HasPrefix (GetCollection (heap a)) (GetId (heap b))))"

section \<open>Topological sort of the draw targets\<close>

record DrawTargetEntry =
  originalIndex :: nat
  drawTarget :: HdStDrawTargetPtr
  hasDependentDrawTargets :: bool

text \<open>The entry \<open>{i, drawTargets[i], false}\<close> that every \<open>push_back\<close> of the sort appends.\<close>

definition newEntry :: "HdStDrawTargetPtr list \<Rightarrow> nat \<Rightarrow> DrawTargetEntry" where
  "newEntry drawTargets i =
     \<lparr>originalIndex = i, drawTarget = drawTargets ! i, hasDependentDrawTargets = False\<rparr>"

text \<open>
  The body of the two nested loops that compute \<open>indexToDependencies\<close> (a vector of
  \<open>std::set<size_t>\<close>) and \<open>indexToDependents\<close> (a vector of vectors). The variable
  \<open>dependent\<close> of the source is written \<open>dependent'\<close>, since \<open>dependent\<close> is a constant of
  HOL.
\<close>

definition recordDependency ::
  "(SdfPath \<Rightarrow> SdfPath \<Rightarrow> bool) \<Rightarrow> HdStDrawTargetHeap \<Rightarrow> HdStDrawTargetPtr list \<Rightarrow>
   nat \<Rightarrow> nat \<Rightarrow> nat set list \<times> nat list list \<Rightarrow> nat set list \<times> nat list list" where
  "recordDependency HasPrefix heap drawTargets dependent' dependency st =
     (case st of (indexToDependencies, indexToDependents) \<Rightarrow>
        if IsDependentOn HasPrefix heap (drawTargets ! dependent') (drawTargets ! dependency)
        then (indexToDependencies
                [dependent' := insert dependency (indexToDependencies ! dependent')],
              indexToDependents
                [dependency := indexToDependents ! dependency @ [dependent']])
        else st)"

definition computeDependencies ::
  "(SdfPath \<Rightarrow> SdfPath \<Rightarrow> bool) \<Rightarrow> HdStDrawTargetHeap \<Rightarrow> HdStDrawTargetPtr list \<Rightarrow>
   nat set list \<times> nat list list" where
  "computeDependencies HasPrefix heap drawTargets =
     (let n = length drawTargets in
      fold (\<lambda>dependent'.
              fold (recordDependency HasPrefix heap drawTargets dependent') [0..<n])
           [0..<n] (replicate n {}, replicate n []))"

text \<open>The first loop of the sort: the draw targets that depend on no other one.\<close>

definition scheduleIndependent ::
  "HdStDrawTargetPtr list \<Rightarrow> nat set list \<Rightarrow> DrawTargetEntry list" where
  "scheduleIndependent drawTargets indexToDependencies =
     fold (\<lambda>dependent' result.
             if indexToDependencies ! dependent' = {}
             then result @ [newEntry drawTargets dependent']
             else result)
          [0..<length drawTargets] []"

text \<open>
  The body of the inner loop of the main pass, for the entry at position \<open>i\<close> of the result,
  whose original index is \<open>dependency\<close>. The source holds a reference \<open>entry\<close> to
  \<open>(*result)[i]\<close> across the \<open>push_back\<close>; the vector was reserved for \<open>n\<close> entries, so the
  reference stays valid as long as the result holds at most \<open>n\<close> entries, which lemma
  \<open>sortInv_length\<close> shows for every round of the main pass.
\<close>

definition releaseDependent ::
  "HdStDrawTargetPtr list \<Rightarrow> nat \<Rightarrow> nat \<Rightarrow> nat \<Rightarrow>
   nat set list \<times> DrawTargetEntry list \<Rightarrow> nat set list \<times> DrawTargetEntry list" where
  "releaseDependent drawTargets i dependency dependent' st =
     (case st of (indexToDependencies, result) \<Rightarrow>
        let indexToDependencies' =
              indexToDependencies
                [dependent' := indexToDependencies ! dependent' - {dependency}];
            result' =
              (if indexToDependencies' ! dependent' = {}
               then result @ [newEntry drawTargets dependent']
               else result)
        in (indexToDependencies',
            result'[i := (result' ! i)\<lparr>hasDependentDrawTargets := True\<rparr>]))"

text \<open>
  The main pass, \<open>for (size_t i = 0; i < result->size(); i++)\<close>: the result grows while
  the loop runs, so the loop is a partial function and \<open>None\<close> stands for a loop that
  never ends.
\<close>

partial_function (option) scheduleLoop ::
  "HdStDrawTargetPtr list \<Rightarrow> nat list list \<Rightarrow> nat \<Rightarrow> nat set list \<Rightarrow>
   DrawTargetEntry list \<Rightarrow> (nat set list \<times> DrawTargetEntry list) option" where
  "scheduleLoop drawTargets indexToDependents i indexToDependencies result =
     (if i < length result
      then (case fold (releaseDependent drawTargets i (originalIndex (result ! i)))
                      (indexToDependents ! originalIndex (result ! i))
                      (indexToDependencies, result) of
              (indexToDependencies', result') \<Rightarrow>
                scheduleLoop drawTargets indexToDependents (i + 1)
                  indexToDependencies' result')
      else Some (indexToDependencies, result))"

declare scheduleLoop.simps [code]

text \<open>The fallback for cycles: what the main pass left is scheduled in the given order.\<close>

definition scheduleCycles ::
  "HdStDrawTargetPtr list \<Rightarrow> nat set list \<Rightarrow> DrawTargetEntry list \<Rightarrow>
   DrawTargetEntry list" where
  "scheduleCycles drawTargets indexToDependencies result =
     (if length result < length drawTargets
      then fold (\<lambda>i result.
                   if indexToDependencies ! i \<noteq> {}
                   then result @ [newEntry drawTargets i]
                   else result)
                [0..<length drawTargets] result
      else result)"

text \<open>
  The main pass as a whole: the dependencies, the independent draw targets, the loop. It
  returns the remaining dependencies and the entries scheduled so far.
\<close>

definition mainPass ::
  "(SdfPath \<Rightarrow> SdfPath \<Rightarrow> bool) \<Rightarrow> HdStDrawTargetHeap \<Rightarrow> HdStDrawTargetPtr list \<Rightarrow>
   (nat set list \<times> DrawTargetEntry list) option" where
  "mainPass HasPrefix heap drawTargets =
     (case computeDependencies HasPrefix heap drawTargets of
        (indexToDependencies, indexToDependents) \<Rightarrow>
          scheduleLoop drawTargets indexToDependents 0 indexToDependencies
            (scheduleIndependent drawTargets indexToDependencies))"

text \<open>
  \<open>_SortDrawTargets\<close>. The caller passes a fresh, empty vector as \<open>result\<close>, and the model
  returns the vector the function leaves, with the coding errors it reported
  (\<open>TF_CODING_ERROR("Mismatch")\<close>).
\<close>

definition SortDrawTargets ::
  "(SdfPath \<Rightarrow> SdfPath \<Rightarrow> bool) \<Rightarrow> HdStDrawTargetHeap \<Rightarrow> HdStDrawTargetPtr list \<Rightarrow>
   (DrawTargetEntry list \<times> string list) option" where
  "SortDrawTargets HasPrefix heap drawTargets =
     (if drawTargets = [] then Some ([], [])
      else
        (case mainPass HasPrefix heap drawTargets of
           None \<Rightarrow> None
         | Some (indexToDependencies, scheduled) \<Rightarrow>
             (let result = scheduleCycles drawTargets indexToDependencies scheduled
              in Some (result,
                       if length result \<noteq> length drawTargets then [''Mismatch''] else []))))"

text \<open>
  \<open>_GetSortedDrawTargets\<close>: the draw targets of the render index
  (\<open>HdStDrawTarget::GetDrawTargets\<close>, a parameter here), sorted.
\<close>

definition GetSortedDrawTargets ::
  "(SdfPath \<Rightarrow> SdfPath \<Rightarrow> bool) \<Rightarrow> HdStDrawTargetHeap \<Rightarrow> HdStDrawTargetPtr list \<Rightarrow>
   DrawTargetEntry list option" where
  "GetSortedDrawTargets HasPrefix heap unsortedDrawTargets =
     map_option fst (SortDrawTargets HasPrefix heap unsortedDrawTargets)"

section \<open>The task and the objects it works with\<close>

text \<open>
  Floating-point values (\<open>float\<close>, \<open>double\<close>, the components of \<open>GfVec4f\<close>) are only
  copied by the task, never computed with, and are represented by reals. Matrices are
  terms over the operations the task applies to the matrices of a camera:
  \<open>CameraUtilConformedWindow\<close>, the matrix product and \<open>GfMatrix4d().SetScale\<close>.
\<close>

type_synonym GfVec4f = "real \<times> real \<times> real \<times> real"
type_synonym GfVec4d = "real \<times> real \<times> real \<times> real"

datatype GfMatrix4d =
    Matrix nat
  | SetScale real real real
  | CameraUtilConformedWindow GfMatrix4d nat real
  | MatrixProduct GfMatrix4d GfMatrix4d

datatype HdCullStyle =
    HdCullStyleDontCare
  | HdCullStyleNothing
  | HdCullStyleBack
  | HdCullStyleFront
  | HdCullStyleBackUnlessDoubleSided
  | HdCullStyleFrontUnlessDoubleSided

text \<open>The camera, by its accessors; the window policy is an enumerator, only passed on.\<close>

record HdCamera =
  GetViewMatrix :: GfMatrix4d
  GetProjectionMatrix :: GfMatrix4d
  GetWindowPolicy :: nat
  GetClipPlanes :: "GfVec4d list"

text \<open>The shared lighting context of the frame, by the accessors the task reads.\<close>

record GlfSimpleLightingContext =
  GetUseLighting :: bool
  GetLights :: "nat list"
  GetMaterial :: nat
  GetSceneAmbient :: GfVec4f
  GetShadows :: nat
  GetUseColorMaterialDiffuse :: bool

record HdxDrawTargetTaskParams =
  overrideColor :: GfVec4f
  wireframeColor :: GfVec4f
  enableLighting :: bool
  alphaThreshold :: real
  depthBiasUseDefault :: bool
  depthBiasEnable :: bool
  depthBiasConstantFactor :: real
  depthBiasSlopeFactor :: real
  depthFunc :: HdCompareFunction
  cullStyle :: HdCullStyle

text \<open>
  A \<open>HdStRenderPassState\<close> and the lighting context of a \<open>HdStSimpleLightingShader\<close> are
  objects of other libraries, each owned by one entry of the task: such an object is
  represented by the calls the task has made on it since \<open>make_shared\<close>, in order.
\<close>

datatype HdStRenderPassStateCall =
    SetOverrideColor GfVec4f
  | SetWireframeColor GfVec4f
  | SetLightingEnabled bool
  | SetAlphaThreshold real
  | SetCullStyle HdCullStyle
  | SetDepthFunc HdCompareFunction
  | SetAovBindings "string list"
  | SetLightingShader
  | SetCameraFramingState GfMatrix4d GfMatrix4d GfVec4d "GfVec4d list"
  | Prepare

datatype GlfSimpleLightingContextCall =
    SetCamera GfMatrix4d GfMatrix4d
  | SetUseLighting bool
  | SetLights "nat list"
  | SetMaterial nat
  | SetSceneAmbient GfVec4f
  | SetShadows nat
  | SetUseColorMaterialDiffuse bool

text \<open>
  \<open>HdxDrawTargetTask::_RenderPassInfo\<close>. The target is the address of a draw target: only
  pointers that passed the null check are stored.
\<close>

record RenderPassInfo =
  renderPassState :: "HdStRenderPassStateCall list"
  simpleLightingShader :: "GlfSimpleLightingContextCall list"
  target :: nat
  version :: "32 word"

text \<open>
  A \<open>HdxDrawTargetRenderPass\<close>: what its setters store (the Glf draw target, the address of
  the draw target whose render pass state it was given, the flag), and the number of calls
  of its \<open>Sync\<close>.
\<close>

record HdxDrawTargetRenderPass =
  GetDrawTarget :: "nat option"
  drawTargetRenderPassState :: nat
  HasDependentDrawTargets :: bool
  syncCalls :: nat

text \<open>The task; the private member \<open>_name\<close> of the source is the field \<open>m_name\<close>.\<close>

record HdxDrawTargetTask =
  m_currentDrawTargetSetVersion :: "32 word"
  m_renderPassesInfo :: "RenderPassInfo list"
  m_renderPasses :: "HdxDrawTargetRenderPass list"
  m_overrideColor :: GfVec4f
  m_wireframeColor :: GfVec4f
  m_enableLighting :: bool
  m_alphaThreshold :: real
  m_depthBiasUseDefault :: bool
  m_depthBiasEnable :: bool
  m_depthBiasConstantFactor :: real
  m_depthBiasSlopeFactor :: real
  m_depthFunc :: HdCompareFunction
  m_cullStyle :: HdCullStyle
  m_enableSampleAlphaToCoverage :: bool
  m_renderTags :: "TfToken list"

text \<open>The constructor.\<close>

definition HdxDrawTargetTask_new :: HdxDrawTargetTask where
  "HdxDrawTargetTask_new =
     \<lparr>m_currentDrawTargetSetVersion = 0,
      m_renderPassesInfo = [],
      m_renderPasses = [],
      m_overrideColor = (0, 0, 0, 0),
      m_wireframeColor = (0, 0, 0, 0),
      m_enableLighting = False,
      m_alphaThreshold = 0,
      m_depthBiasUseDefault = True,
      m_depthBiasEnable = False,
      m_depthBiasConstantFactor = 0,
      m_depthBiasSlopeFactor = 1,
      m_depthFunc = HdCmpFuncLEqual,
      m_cullStyle = HdCullStyleBackUnlessDoubleSided,
      m_enableSampleAlphaToCoverage = True,
      m_renderTags = []\<rparr>"

text \<open>
  What \<open>Sync\<close> asks of the scene delegate, the render index and its change tracker, one
  field per question: the task parameters (\<open>None\<close> when \<open>_GetTaskParams\<close> returns false),
  the render tags, the version of the draw target set, the draw targets of the render
  index and the store they live in, the camera of a path (\<open>None\<close> for a null pointer), and
  the two switches of the alpha-to-coverage setting.
\<close>

record Scene =
  GetTaskParams :: "HdxDrawTargetTaskParams option"
  GetTaskRenderTags :: "TfToken list"
  GetStateVersion :: "32 word"
  GetDrawTargets :: "HdStDrawTargetPtr list"
  drawTargetHeap :: HdStDrawTargetHeap
  GetSprim :: "SdfPath \<Rightarrow> HdCamera option"
  taskSetAlphaToCoverage :: bool
  HDX_DISABLE_ALPHA_TO_COVERAGE :: bool

text \<open>
  The task context maps tokens to values: the pointer to the render passes of this task,
  a lighting context, or a value of another type.
\<close>

datatype VtValue =
    DrawTargetRenderPassesPtr
  | LightingContextValue GlfSimpleLightingContext
  | OtherValue

type_synonym HdTaskContext = "TfToken \<rightharpoonup> VtValue"

definition drawTargetRenderPassesToken :: TfToken where
  "drawTargetRenderPassesToken = ''drawTargetRenderPasses''"

definition lightingContextToken :: TfToken where
  "lightingContextToken = ''lightingContext''"

text \<open>
  \<open>_GetTaskContextData\<close> for a lighting context: the value stored under the token when it
  is a lighting context, and otherwise the output is left null.
\<close>

definition GetTaskContextData :: "HdTaskContext \<Rightarrow> TfToken \<Rightarrow> GlfSimpleLightingContext option" where
  "GetTaskContextData ctx token =
     (case ctx token of
        Some (LightingContextValue lightingContext) \<Rightarrow> Some lightingContext
      | _ \<Rightarrow> None)"

text \<open>
  The dirty bits are a \<open>uint32_t\<close>; \<open>Clean\<close>, \<open>DirtyParams\<close> and \<open>DirtyRenderTags\<close> are
  enumerators of \<open>HdChangeTracker\<close> (\<open>pxr/imaging/hd/changeTracker.h\<close>), with the values
  \<open>0\<close>, \<open>1 << 2\<close> and \<open>1 << 4\<close> of that header.
\<close>

type_synonym HdDirtyBits = "32 word"

definition Clean :: HdDirtyBits where
  "Clean = 0"

definition DirtyParams :: HdDirtyBits where
  "DirtyParams = push_bit 2 1"

definition DirtyRenderTags :: HdDirtyBits where
  "DirtyRenderTags = push_bit 4 1"

section \<open>Sync\<close>

text \<open>The assignments of the task parameters to the members of the task.\<close>

definition setParams :: "HdxDrawTargetTaskParams \<Rightarrow> HdxDrawTargetTask \<Rightarrow> HdxDrawTargetTask" where
  "setParams params task =
     task\<lparr>m_wireframeColor := wireframeColor params,
          m_enableLighting := enableLighting params,
          m_overrideColor := overrideColor params,
          m_alphaThreshold := alphaThreshold params,
          m_cullStyle := cullStyle params,
          m_depthBiasUseDefault := depthBiasUseDefault params,
          m_depthBiasEnable := depthBiasEnable params,
          m_depthBiasConstantFactor := depthBiasConstantFactor params,
          m_depthBiasSlopeFactor := depthBiasSlopeFactor params,
          m_depthFunc := depthFunc params\<rparr>"

text \<open>
  The body of the loop over the sorted entries when the draw target set has changed: a
  render pass and a render pass info for every draw target that is not null and is
  enabled.
\<close>

definition addRenderPass ::
  "HdStDrawTargetHeap \<Rightarrow> DrawTargetEntry \<Rightarrow>
   RenderPassInfo list \<times> HdxDrawTargetRenderPass list \<Rightarrow>
   RenderPassInfo list \<times> HdxDrawTargetRenderPass list" where
  "addRenderPass heap entry st =
     (case st of (renderPassesInfo, renderPasses) \<Rightarrow>
        (case drawTarget entry of
           None \<Rightarrow> st
         | Some a \<Rightarrow>
             if IsEnabled (heap a)
             then (renderPassesInfo @
                     [\<lparr>renderPassState = [], simpleLightingShader = [], target = a,
                       version = GetVersion (heap a)\<rparr>],
                   renderPasses @
                     [\<lparr>GetDrawTarget = GetGlfDrawTarget (heap a),
                       drawTargetRenderPassState = a,
                       HasDependentDrawTargets = hasDependentDrawTargets entry,
                       syncCalls = 0\<rparr>])
             else st))"

definition rebuildRenderPasses ::
  "HdStDrawTargetHeap \<Rightarrow> DrawTargetEntry list \<Rightarrow>
   RenderPassInfo list \<times> HdxDrawTargetRenderPass list" where
  "rebuildRenderPasses heap drawTargetEntries =
     fold (addRenderPass heap) drawTargetEntries ([], [])"

text \<open>
  The body of the loop over the render passes when the draw target set has not changed:
  a render pass whose draw target has another version than the cached one is given the
  Glf draw target again, and the cached version is updated.
\<close>

definition refreshRenderPass ::
  "HdStDrawTargetHeap \<Rightarrow> nat \<Rightarrow>
   RenderPassInfo list \<times> HdxDrawTargetRenderPass list \<Rightarrow>
   RenderPassInfo list \<times> HdxDrawTargetRenderPass list" where
  "refreshRenderPass heap renderPassIdx st =
     (case st of (renderPassesInfo, renderPasses) \<Rightarrow>
        let renderPassInfo = renderPassesInfo ! renderPassIdx;
            targetVersion = GetVersion (heap (target renderPassInfo))
        in if version renderPassInfo \<noteq> targetVersion
           then (renderPassesInfo
                   [renderPassIdx := renderPassInfo\<lparr>version := targetVersion\<rparr>],
                 renderPasses
                   [renderPassIdx := (renderPasses ! renderPassIdx)
                      \<lparr>GetDrawTarget := GetGlfDrawTarget (heap (target renderPassInfo))\<rparr>])
           else st)"

definition refreshRenderPasses ::
  "HdStDrawTargetHeap \<Rightarrow> RenderPassInfo list \<times> HdxDrawTargetRenderPass list \<Rightarrow>
   RenderPassInfo list \<times> HdxDrawTargetRenderPass list" where
  "refreshRenderPasses heap st =
     fold (refreshRenderPass heap) [0..<length (fst st)] st"

text \<open>
  The third argument of \<open>CameraUtilConformedWindow\<close>,
  \<open>resolution[1] != 0.0 ? resolution[0] / resolution[1] : 1.0\<close>. The components of the
  resolution are C++ \<open>int\<close>s, so the quotient is the truncating division of integers
  (\<open>sdiv\<close>), converted to \<open>double\<close> afterwards. For the resolution
  \<open>(INT_MIN, -1)\<close> alone the quotient of the source overflows, which is undefined behaviour
  in C++; the model has the mathematical quotient there, and no theorem below is about this
  input.
\<close>

definition conformAspect :: "int \<times> int \<Rightarrow> real" where
  "conformAspect resolution =
     (if snd resolution \<noteq> 0 then of_int (fst resolution sdiv snd resolution) else 1)"

definition yflip :: GfMatrix4d where
  "yflip = SetScale 1 (- 1) 1"

text \<open>
  The body of the loop that updates the state of every render pass. It returns the id of
  the camera (\<open>Inl\<close>) when the render index has no camera of that id: \<open>Sync\<close> then reports
  a coding error and returns.
\<close>

definition updateRenderPass ::
  "Scene \<Rightarrow> HdxDrawTargetTask \<Rightarrow> GlfSimpleLightingContext option \<Rightarrow> nat \<Rightarrow>
   RenderPassInfo list \<times> HdxDrawTargetRenderPass list \<Rightarrow>
   SdfPath + RenderPassInfo list \<times> HdxDrawTargetRenderPass list" where
  "updateRenderPass scene task lightingContext renderPassIdx st =
     (case st of (renderPassesInfo, renderPasses) \<Rightarrow>
        let renderPassInfo = renderPassesInfo ! renderPassIdx;
            drawTarget = drawTargetHeap scene (target renderPassInfo);
            drawTargetRenderPassState = GetRenderPassState drawTarget;
            cameraId = GetCamera drawTargetRenderPassState
        in (case GetSprim scene cameraId of
              None \<Rightarrow> Inl cameraId
            | Some camera \<Rightarrow>
                let depthFunc =
                      HdxDrawTargetTask_GetResolvedDepthFunc (m_depthFunc task)
                        (GetDepthPriority drawTargetRenderPassState);
                    resolution = GetResolution drawTarget;
                    viewMatrix = GetViewMatrix camera;
                    projectionMatrix =
                      MatrixProduct
                        (CameraUtilConformedWindow (GetProjectionMatrix camera)
                           (GetWindowPolicy camera) (conformAspect resolution))
                        yflip;
                    viewport = (0, 0, of_int (fst resolution), of_int (snd resolution))
                in Inr
                     (renderPassesInfo
                        [renderPassIdx := renderPassInfo
                           \<lparr>renderPassState :=
                              renderPassState renderPassInfo @
                                [SetOverrideColor (m_overrideColor task),
                                 SetWireframeColor (m_wireframeColor task),
                                 SetLightingEnabled (m_enableLighting task),
                                 SetAlphaThreshold (m_alphaThreshold task),
                                 SetCullStyle (m_cullStyle task),
                                 SetDepthFunc depthFunc,
                                 SetAovBindings (GetAovBindings drawTargetRenderPassState),
                                 SetLightingShader,
                                 SetCameraFramingState viewMatrix projectionMatrix viewport
                                   (GetClipPlanes camera),
                                 Prepare],
                            simpleLightingShader :=
                              simpleLightingShader renderPassInfo @
                                [SetCamera viewMatrix projectionMatrix] @
                                (case lightingContext of
                                   None \<Rightarrow> []
                                 | Some lc \<Rightarrow>
                                     [SetUseLighting (GetUseLighting lc),
                                      SetLights (GetLights lc),
                                      SetMaterial (GetMaterial lc),
                                      SetSceneAmbient (GetSceneAmbient lc),
                                      SetShadows (GetShadows lc),
                                      SetUseColorMaterialDiffuse
                                        (GetUseColorMaterialDiffuse lc)])\<rparr>],
                      renderPasses
                        [renderPassIdx := (renderPasses ! renderPassIdx)
                           \<lparr>syncCalls := syncCalls (renderPasses ! renderPassIdx) + 1\<rparr>])))"

text \<open>
  The loop itself, over the indices that are left: it stops at the first camera that is
  missing, with the state reached so far.
\<close>

fun updateRenderPasses ::
  "Scene \<Rightarrow> HdxDrawTargetTask \<Rightarrow> GlfSimpleLightingContext option \<Rightarrow> nat list \<Rightarrow>
   RenderPassInfo list \<times> HdxDrawTargetRenderPass list \<Rightarrow>
   SdfPath option \<times> RenderPassInfo list \<times> HdxDrawTargetRenderPass list" where
  "updateRenderPasses scene task lightingContext [] st = (None, st)"
| "updateRenderPasses scene task lightingContext (renderPassIdx # rest) st =
     (case updateRenderPass scene task lightingContext renderPassIdx st of
        Inl cameraId \<Rightarrow> (Some cameraId, st)
      | Inr st' \<Rightarrow> updateRenderPasses scene task lightingContext rest st')"

text \<open>
  How \<open>Sync\<close> returns: after \<open>_GetTaskParams\<close> failed, after the coding error
  \<open>Invalid camera for render pass\<close>, or at its end.
\<close>

datatype SyncExit =
    ParamsNotFetched
  | InvalidCamera SdfPath
  | Completed

text \<open>
  The first part of \<open>Sync\<close>: the parameters, the render tags, and the render passes,
  rebuilt or refreshed. \<open>None\<close> stands for a sort that does not end, \<open>Some None\<close> for the
  return after \<open>_GetTaskParams\<close> failed.
\<close>

definition syncParams :: "Scene \<Rightarrow> HdxDrawTargetTask \<Rightarrow> HdDirtyBits \<Rightarrow> HdxDrawTargetTask option" where
  "syncParams scene task dirtyBits =
     (if dirtyBits AND DirtyParams \<noteq> 0
      then (case GetTaskParams scene of
              None \<Rightarrow> None
            | Some params \<Rightarrow> Some (setParams params task))
      else Some task)"

definition syncRenderTags :: "Scene \<Rightarrow> HdxDrawTargetTask \<Rightarrow> HdDirtyBits \<Rightarrow> HdxDrawTargetTask" where
  "syncRenderTags scene task dirtyBits =
     (if dirtyBits AND DirtyRenderTags \<noteq> 0
      then task\<lparr>m_renderTags := GetTaskRenderTags scene\<rparr>
      else task)"

definition syncDrawTargetSet ::
  "(SdfPath \<Rightarrow> SdfPath \<Rightarrow> bool) \<Rightarrow> Scene \<Rightarrow> HdxDrawTargetTask \<Rightarrow> HdxDrawTargetTask option" where
  "syncDrawTargetSet HasPrefix scene task =
     (let drawTargetVersion = GetStateVersion scene
      in if m_currentDrawTargetSetVersion task \<noteq> drawTargetVersion
         then (case GetSortedDrawTargets HasPrefix (drawTargetHeap scene)
                      (GetDrawTargets scene) of
                 None \<Rightarrow> None
               | Some drawTargetEntries \<Rightarrow>
                   (case rebuildRenderPasses (drawTargetHeap scene) drawTargetEntries of
                      (renderPassesInfo, renderPasses) \<Rightarrow>
                        Some (task\<lparr>m_renderPassesInfo := renderPassesInfo,
                                   m_renderPasses := renderPasses,
                                   m_currentDrawTargetSetVersion := drawTargetVersion\<rparr>)))
         else (case refreshRenderPasses (drawTargetHeap scene)
                      (m_renderPassesInfo task, m_renderPasses task) of
                 (renderPassesInfo, renderPasses) \<Rightarrow>
                   Some (task\<lparr>m_renderPassesInfo := renderPassesInfo,
                              m_renderPasses := renderPasses\<rparr>)))"

text \<open>
  \<open>HdxDrawTargetTask::Sync\<close>. It returns how it ended, the task, the task context and the
  dirty bits as it leaves them.
\<close>

definition Sync ::
  "(SdfPath \<Rightarrow> SdfPath \<Rightarrow> bool) \<Rightarrow> Scene \<Rightarrow> HdxDrawTargetTask \<Rightarrow> HdTaskContext \<Rightarrow>
   HdDirtyBits \<Rightarrow> (SyncExit \<times> HdxDrawTargetTask \<times> HdTaskContext \<times> HdDirtyBits) option" where
  "Sync HasPrefix scene task ctx dirtyBits =
     (case syncParams scene task dirtyBits of
        None \<Rightarrow> Some (ParamsNotFetched, task, ctx, dirtyBits)
      | Some task1 \<Rightarrow>
          (case syncDrawTargetSet HasPrefix scene (syncRenderTags scene task1 dirtyBits) of
             None \<Rightarrow> None
           | Some task2 \<Rightarrow>
               let ctx' = ctx(drawTargetRenderPassesToken \<mapsto> DrawTargetRenderPassesPtr);
                   lightingContext = GetTaskContextData ctx' lightingContextToken
               in (case updateRenderPasses scene task2 lightingContext
                          [0..<length (m_renderPassesInfo task2)]
                          (m_renderPassesInfo task2, m_renderPasses task2) of
                     (Some cameraId, renderPassesInfo, renderPasses) \<Rightarrow>
                       Some (InvalidCamera cameraId,
                             task2\<lparr>m_renderPassesInfo := renderPassesInfo,
                                   m_renderPasses := renderPasses\<rparr>,
                             ctx', dirtyBits)
                   | (None, renderPassesInfo, renderPasses) \<Rightarrow>
                       Some (Completed,
                             task2\<lparr>m_renderPassesInfo := renderPassesInfo,
                                   m_renderPasses := renderPasses,
                                   m_enableSampleAlphaToCoverage :=
                                     \<not> (taskSetAlphaToCoverage scene
                                        \<and> HDX_DISABLE_ALPHA_TO_COVERAGE scene)\<rparr>,
                             ctx', Clean))))"

section \<open>Execute\<close>

text \<open>
  The loop of \<open>Execute\<close> runs over the indices of \<open>_renderPassesInfo\<close> and reads
  \<open>_renderPasses\<close> at the same index; \<open>Sync\<close> keeps the two vectors at one length (lemma
  \<open>Sync_wellFormed\<close>).
  \<open>Execute\<close> changes nothing in the task: what it does is the sequence of its calls of
  OpenGL and of the render passes, their states and their draw targets. The calls on the
  objects of the entry at index \<open>i\<close> carry that index; \<open>Resolve\<close> carries the Glf draw target
  as well.
\<close>

datatype GLenum =
    GL_POLYGON_OFFSET_FILL
  | GL_SAMPLE_ALPHA_TO_COVERAGE
  | GL_PROGRAM_POINT_SIZE
  | GL_CW
  | GL_CCW

datatype ExecuteCall =
    glEnable GLenum
  | glDisable GLenum
  | glPolygonOffset real real
  | glFrontFace GLenum
  | Bind nat
  | ExecuteRenderPass nat "TfToken list"
  | Unbind nat
  | Resolve nat nat

definition GetRenderTags :: "HdxDrawTargetTask \<Rightarrow> TfToken list" where
  "GetRenderTags task = m_renderTags task"

text \<open>The body of the loop of \<open>Execute\<close> over the render passes.\<close>

definition executeRenderPass :: "HdxDrawTargetTask \<Rightarrow> nat \<Rightarrow> ExecuteCall list \<Rightarrow> ExecuteCall list" where
  "executeRenderPass task renderPassIdx calls =
     (let renderPass = m_renderPasses task ! renderPassIdx;
          calls' = calls @ [Bind renderPassIdx,
                            ExecuteRenderPass renderPassIdx (GetRenderTags task),
                            Unbind renderPassIdx]
      in if HasDependentDrawTargets renderPass
         then (case GetDrawTarget renderPass of
                 None \<Rightarrow> calls'
               | Some glfDrawTarget \<Rightarrow> calls' @ [Resolve renderPassIdx glfDrawTarget])
         else calls')"

definition Execute :: "HdxDrawTargetTask \<Rightarrow> ExecuteCall list" where
  "Execute task =
     (let calls0 =
            (if \<not> m_depthBiasUseDefault task
             then (if m_depthBiasEnable task
                   then [glEnable GL_POLYGON_OFFSET_FILL,
                         glPolygonOffset (m_depthBiasSlopeFactor task)
                           (m_depthBiasConstantFactor task)]
                   else [glDisable GL_POLYGON_OFFSET_FILL])
             else []);
          calls1 =
            calls0 @
            [if m_enableSampleAlphaToCoverage task
             then glEnable GL_SAMPLE_ALPHA_TO_COVERAGE
             else glDisable GL_SAMPLE_ALPHA_TO_COVERAGE,
             glEnable GL_PROGRAM_POINT_SIZE,
             glFrontFace GL_CW];
          calls2 =
            fold (executeRenderPass task) [0..<length (m_renderPassesInfo task)] calls1
      in calls2 @
         [glDisable GL_SAMPLE_ALPHA_TO_COVERAGE,
          glDisable GL_PROGRAM_POINT_SIZE,
          glDisable GL_POLYGON_OFFSET_FILL,
          glFrontFace GL_CCW])"

section \<open>Notions used to state and prove the properties of the sort\<close>

text \<open>
  The draw target at index \<open>x\<close> of the vector depends on the one at index \<open>y\<close>, as the
  loops of the sort ask \<open>_IsDependentOn\<close>.
\<close>

definition dependsOn ::
  "(SdfPath \<Rightarrow> SdfPath \<Rightarrow> bool) \<Rightarrow> HdStDrawTargetHeap \<Rightarrow> HdStDrawTargetPtr list \<Rightarrow>
   nat \<Rightarrow> nat \<Rightarrow> bool" where
  "dependsOn HasPrefix heap drawTargets x y =
     IsDependentOn HasPrefix heap (drawTargets ! x) (drawTargets ! y)"

text \<open>The assignment \<open>entry.hasDependentDrawTargets = true\<close> to the entry at position \<open>i\<close>.\<close>

definition setFlag :: "nat \<Rightarrow> DrawTargetEntry list \<Rightarrow> DrawTargetEntry list" where
  "setFlag i res = res[i := (res ! i)\<lparr>hasDependentDrawTargets := True\<rparr>]"

text \<open>The \<open>erase\<close> calls of one run of the inner loop, on the dependency sets alone.\<close>

definition eraseAll :: "nat \<Rightarrow> nat list \<Rightarrow> nat set list \<Rightarrow> nat set list" where
  "eraseAll y ds D = fold (\<lambda>d D. D[d := D ! d - {y}]) ds D"

text \<open>
  The invariant of the main pass before the entry at position \<open>i\<close> is processed; \<open>D0\<close> and
  \<open>R\<close> are the dependency sets and the dependents as first computed, \<open>D\<close> the sets now.
\<close>

definition sortInv ::
  "HdStDrawTargetPtr list \<Rightarrow> nat set list \<Rightarrow> nat list list \<Rightarrow> nat \<Rightarrow> nat set list \<Rightarrow>
   DrawTargetEntry list \<Rightarrow> bool" where
  "sortInv dts D0 R i D res =
     (length D = length dts \<and> i \<le> length res
      \<and> distinct (map originalIndex res)
      \<and> (\<forall>k<length res. originalIndex (res ! k) < length dts
                         \<and> drawTarget (res ! k) = dts ! originalIndex (res ! k))
      \<and> (\<forall>d<length dts. D ! d = D0 ! d - set (take i (map originalIndex res)))
      \<and> (\<forall>d<length dts. (d \<in> set (map originalIndex res)) = (D ! d = {}))
      \<and> (\<forall>k<length res. D0 ! originalIndex (res ! k) \<subseteq> set (take k (map originalIndex res)))
      \<and> (\<forall>k<length res. hasDependentDrawTargets (res ! k)
                           = (k < i \<and> R ! originalIndex (res ! k) \<noteq> [])))"

text \<open>The dependency graph over the indices of the vector: an edge from \<open>x\<close> to \<open>y\<close> when \<open>x\<close> depends on \<open>y\<close>.\<close>

definition dependencyGraph ::
  "(SdfPath \<Rightarrow> SdfPath \<Rightarrow> bool) \<Rightarrow> HdStDrawTargetHeap \<Rightarrow> HdStDrawTargetPtr list \<Rightarrow>
   (nat \<times> nat) set" where
  "dependencyGraph HasPrefix heap drawTargets =
     {(x, y). x < length drawTargets \<and> y < length drawTargets
              \<and> dependsOn HasPrefix heap drawTargets x y}"

text \<open>The indices below \<open>n\<close> that have no entry in a list of entries, in ascending order.\<close>

definition unscheduled :: "nat \<Rightarrow> DrawTargetEntry list \<Rightarrow> nat list" where
  "unscheduled n scheduled =
     filter (\<lambda>i. i \<notin> set (map originalIndex scheduled)) [0..<n]"

section \<open>Notions used to state and prove the properties of the task\<close>

text \<open>The two vectors of the task have one element for each render pass.\<close>

definition wellFormed :: "HdxDrawTargetTask \<Rightarrow> bool" where
  "wellFormed task = (length (m_renderPasses task) = length (m_renderPassesInfo task))"

text \<open>The refresh, entry by entry.\<close>

definition refreshedInfo :: "HdStDrawTargetHeap \<Rightarrow> RenderPassInfo \<Rightarrow> RenderPassInfo" where
  "refreshedInfo heap info = info\<lparr>version := GetVersion (heap (target info))\<rparr>"

definition refreshedPass ::
  "HdStDrawTargetHeap \<Rightarrow> RenderPassInfo \<Rightarrow> HdxDrawTargetRenderPass \<Rightarrow> HdxDrawTargetRenderPass" where
  "refreshedPass heap info pass =
     (if version info \<noteq> GetVersion (heap (target info))
      then pass\<lparr>GetDrawTarget := GetGlfDrawTarget (heap (target info))\<rparr>
      else pass)"

text \<open>What the loop over the render passes leaves as it is.\<close>

definition sameBindings ::
  "RenderPassInfo list \<times> HdxDrawTargetRenderPass list \<Rightarrow>
   RenderPassInfo list \<times> HdxDrawTargetRenderPass list \<Rightarrow> bool" where
  "sameBindings st st' =
     (map target (fst st') = map target (fst st)
      \<and> map version (fst st') = map version (fst st)
      \<and> map GetDrawTarget (snd st') = map GetDrawTarget (snd st)
      \<and> map drawTargetRenderPassState (snd st') = map drawTargetRenderPassState (snd st)
      \<and> map HasDependentDrawTargets (snd st') = map HasDependentDrawTargets (snd st))"

text \<open>The OpenGL calls of \<open>Execute\<close> before its loop, and those after it.\<close>

definition glSetup :: "HdxDrawTargetTask \<Rightarrow> ExecuteCall list" where
  "glSetup task =
     (if m_depthBiasUseDefault task then []
      else if m_depthBiasEnable task
      then [glEnable GL_POLYGON_OFFSET_FILL,
            glPolygonOffset (m_depthBiasSlopeFactor task) (m_depthBiasConstantFactor task)]
      else [glDisable GL_POLYGON_OFFSET_FILL]) @
     [if m_enableSampleAlphaToCoverage task
      then glEnable GL_SAMPLE_ALPHA_TO_COVERAGE
      else glDisable GL_SAMPLE_ALPHA_TO_COVERAGE,
      glEnable GL_PROGRAM_POINT_SIZE,
      glFrontFace GL_CW]"

definition glRestore :: "ExecuteCall list" where
  "glRestore =
     [glDisable GL_SAMPLE_ALPHA_TO_COVERAGE, glDisable GL_PROGRAM_POINT_SIZE,
      glDisable GL_POLYGON_OFFSET_FILL, glFrontFace GL_CCW]"

text \<open>
  The calls for the entry at position \<open>i\<close>, in the words of the specification: bind, execute,
  unbind, and a resolve when the flag is true and the render pass has a draw target.
\<close>

definition entryCalls :: "HdxDrawTargetTask \<Rightarrow> nat \<Rightarrow> ExecuteCall list" where
  "entryCalls task i =
     [Bind i, ExecuteRenderPass i (GetRenderTags task), Unbind i] @
     (case GetDrawTarget (m_renderPasses task ! i) of
        None \<Rightarrow> []
      | Some glfDrawTarget \<Rightarrow>
          if HasDependentDrawTargets (m_renderPasses task ! i)
          then [Resolve i glfDrawTarget]
          else [])"

text \<open>
  The draw targets for which the rebuild makes a render pass, in the order of the sorted
  entries: the address of every draw target that is not null and is enabled, with the flag
  of its entry. From such a pair the rebuild makes one render pass info and one render pass.
\<close>

definition keptTargets :: "HdStDrawTargetHeap \<Rightarrow> DrawTargetEntry list \<Rightarrow> (nat \<times> bool) list" where
  "keptTargets heap entries =
     concat (map (\<lambda>entry. case drawTarget entry of
                             None \<Rightarrow> []
                           | Some a \<Rightarrow>
                               if IsEnabled (heap a)
                               then [(a, hasDependentDrawTargets entry)]
                               else [])
                 entries)"

definition infoOf :: "HdStDrawTargetHeap \<Rightarrow> nat \<times> bool \<Rightarrow> RenderPassInfo" where
  "infoOf heap k =
     \<lparr>renderPassState = [], simpleLightingShader = [], target = fst k,
      version = GetVersion (heap (fst k))\<rparr>"

definition passOf :: "HdStDrawTargetHeap \<Rightarrow> nat \<times> bool \<Rightarrow> HdxDrawTargetRenderPass" where
  "passOf heap k =
     \<lparr>GetDrawTarget = GetGlfDrawTarget (heap (fst k)), drawTargetRenderPassState = fst k,
      HasDependentDrawTargets = snd k, syncCalls = 0\<rparr>"

section \<open>Example scenes\<close>

text \<open>
  Concrete inputs at which the theorems are instantiated. \<open>textPrefix\<close> is an instance of the
  parameter \<open>HasPrefix\<close>: the text of the prefix starts the text of the path.
\<close>

definition textPrefix :: "SdfPath \<Rightarrow> SdfPath \<Rightarrow> bool" where
  "textPrefix path p = prefix p path"

definition exampleTarget :: "SdfPath \<Rightarrow> SdfPath list \<Rightarrow> nat option \<Rightarrow> HdStDrawTarget" where
  "exampleTarget path roots glfDrawTarget =
     \<lparr>GetId = path, IsEnabled = True, GetVersion = 1,
      GetCollection = \<lparr>GetRootPaths = roots, GetExcludePaths = []\<rparr>,
      GetResolution = (512, 512),
      GetRenderPassState =
        \<lparr>GetCamera = ''/cam'', GetDepthPriority = HdDepthPriorityNearest, GetAovBindings = []\<rparr>,
      GetGlfDrawTarget = glfDrawTarget\<rparr>"

text \<open>
  Two draw targets, \<open>/A\<close> at address 0 and \<open>/B\<close> at address 1: the collection of \<open>/B\<close>
  contains \<open>/A\<close>, so \<open>/B\<close> depends on \<open>/A\<close>. The render index lists \<open>/B\<close> first.
\<close>

definition chainHeap :: HdStDrawTargetHeap where
  "chainHeap a =
     (if a = 0 then exampleTarget ''/A'' [''/geo''] (Some 10)
      else exampleTarget ''/B'' [''/A''] (Some 11))"

text \<open>
  Three draw targets: \<open>/A\<close> and \<open>/B\<close> depend on each other, \<open>/B\<close> depends on \<open>/C\<close> as
  well, and \<open>/C\<close> depends on nothing.
\<close>

definition cycleHeap :: HdStDrawTargetHeap where
  "cycleHeap a =
     (if a = 0 then exampleTarget ''/A'' [''/B''] (Some 10)
      else if a = 1 then exampleTarget ''/B'' [''/A'', ''/C''] (Some 11)
      else exampleTarget ''/C'' [''/geo''] (Some 12))"

definition chainTargets :: "HdStDrawTargetPtr list" where
  "chainTargets = [Some 1, Some 0]"

definition cycleTargets :: "HdStDrawTargetPtr list" where
  "cycleTargets = [Some 0, Some 1, Some 2]"

definition exampleCamera :: HdCamera where
  "exampleCamera =
     \<lparr>GetViewMatrix = Matrix 0, GetProjectionMatrix = Matrix 1, GetWindowPolicy = 0,
      GetClipPlanes = []\<rparr>"

definition exampleParams :: HdxDrawTargetTaskParams where
  "exampleParams =
     \<lparr>overrideColor = (0, 0, 0, 0), wireframeColor = (0, 0, 0, 1), enableLighting = True,
      alphaThreshold = 0, depthBiasUseDefault = True, depthBiasEnable = False,
      depthBiasConstantFactor = 0, depthBiasSlopeFactor = 1, depthFunc = HdCmpFuncLess,
      cullStyle = HdCullStyleNothing\<rparr>"

definition exampleScene :: "HdStDrawTargetPtr list \<Rightarrow> HdStDrawTargetHeap \<Rightarrow> Scene" where
  "exampleScene drawTargets heap =
     \<lparr>GetTaskParams = Some exampleParams, GetTaskRenderTags = [''geometry''],
      GetStateVersion = 1, GetDrawTargets = drawTargets, drawTargetHeap = heap,
      GetSprim = (\<lambda>path. if path = ''/cam'' then Some exampleCamera else None),
      taskSetAlphaToCoverage = False, HDX_DISABLE_ALPHA_TO_COVERAGE = False\<rparr>"

definition chainScene :: Scene where
  "chainScene = exampleScene chainTargets chainHeap"

text \<open>The three draw targets with a cycle, as a scene.\<close>

definition cycleScene :: Scene where
  "cycleScene = exampleScene cycleTargets cycleHeap"

text \<open>The chain, with no Glf draw target yet for the draw target that the other one depends on.\<close>

definition pendingScene :: Scene where
  "pendingScene =
     exampleScene chainTargets
       (\<lambda>a. if a = 0 then (chainHeap 0)\<lparr>GetGlfDrawTarget := None\<rparr> else chainHeap a)"

text \<open>The chain, after the version of the draw target at address 1 went from 1 to 2.\<close>

definition advancedScene :: Scene where
  "advancedScene =
     exampleScene chainTargets
       (\<lambda>a. if a = 1 then (chainHeap 1)\<lparr>GetVersion := 2, GetGlfDrawTarget := Some 21\<rparr>
            else chainHeap a)"

text \<open>The chain, with no camera in the render index.\<close>

definition cameralessScene :: Scene where
  "cameralessScene = chainScene\<lparr>GetSprim := (\<lambda>path. None)\<rparr>"

text \<open>The chain, with task parameters that cannot be fetched.\<close>

definition paramlessScene :: Scene where
  "paramlessScene = chainScene\<lparr>GetTaskParams := None\<rparr>"

text \<open>One draw target of 1920 by 1080 texels.\<close>

definition wideScene :: Scene where
  "wideScene =
     exampleScene [Some 0]
       (\<lambda>a. (exampleTarget ''/A'' [''/geo''] (Some 10))\<lparr>GetResolution := (1920, 1080)\<rparr>)"

text \<open>The task after a first \<open>Sync\<close> of the chain.\<close>

definition chainTask :: HdxDrawTargetTask where
  "chainTask =
     (case Sync textPrefix chainScene HdxDrawTargetTask_new Map.empty DirtyParams of
        Some (exit, task, ctx, dirtyBits) \<Rightarrow> task
      | None \<Rightarrow> HdxDrawTargetTask_new)"

section \<open>Properties of the depth-function resolution\<close>

lemma table_rows: "length ResolvedDepthFunc = 2"
  by (simp add: ResolvedDepthFunc_def)

lemma table_columns: "length (ResolvedDepthFunc ! depthPriorityIndex p) = 8"
  by (cases p) (simp_all add: ResolvedDepthFunc_def)

lemma cmpFuncIndex_in_range: "cmpFuncIndex f < 8"
  by (cases f) simp_all

text \<open>
  Claim C3. The resolved depth function is the fixed table of two rows and eight columns:
  with priority Nearest every requested function is returned as it is, and with priority
  Farthest the functions are mapped Never to Never, Less to GEqual, Equal to Equal, LEqual to
  Greater, Greater to LEqual, NotEqual to NotEqual, GEqual to Less and Always to Always.
\<close>

theorem resolved_depth_func_table:
  "HdxDrawTargetTask_GetResolvedDepthFunc f HdDepthPriorityNearest = f
   \<and> HdxDrawTargetTask_GetResolvedDepthFunc HdCmpFuncNever HdDepthPriorityFarthest = HdCmpFuncNever
   \<and> HdxDrawTargetTask_GetResolvedDepthFunc HdCmpFuncLess HdDepthPriorityFarthest = HdCmpFuncGEqual
   \<and> HdxDrawTargetTask_GetResolvedDepthFunc HdCmpFuncEqual HdDepthPriorityFarthest = HdCmpFuncEqual
   \<and> HdxDrawTargetTask_GetResolvedDepthFunc HdCmpFuncLEqual HdDepthPriorityFarthest = HdCmpFuncGreater
   \<and> HdxDrawTargetTask_GetResolvedDepthFunc HdCmpFuncGreater HdDepthPriorityFarthest = HdCmpFuncLEqual
   \<and> HdxDrawTargetTask_GetResolvedDepthFunc HdCmpFuncNotEqual HdDepthPriorityFarthest = HdCmpFuncNotEqual
   \<and> HdxDrawTargetTask_GetResolvedDepthFunc HdCmpFuncGEqual HdDepthPriorityFarthest = HdCmpFuncLess
   \<and> HdxDrawTargetTask_GetResolvedDepthFunc HdCmpFuncAlways HdDepthPriorityFarthest = HdCmpFuncAlways"
  by (cases f) (simp_all add: HdxDrawTargetTask_GetResolvedDepthFunc_def ResolvedDepthFunc_def)

section \<open>The dependency computation and the main pass\<close>

text \<open>
  The two nested loops: afterwards the set at index \<open>a\<close> holds the indices that \<open>a\<close>
  depends on, and the vector at index \<open>b\<close> the indices that depend on \<open>b\<close>, in ascending
  order.
\<close>

lemma recordDependency_simp:
  "recordDependency HP heap dts i j (D, R) =
     (if dependsOn HP heap dts i j
      then (D[i := insert j (D ! i)], R[j := R ! j @ [i]]) else (D, R))"
  by (simp add: recordDependency_def dependsOn_def)

lemma inner_fold:
  assumes "length D = n" "length R = n" "i < n" "m \<le> n"
  shows "\<exists>D' R'. fold (recordDependency HP heap dts i) [0..<m] (D, R) = (D', R')
           \<and> length D' = n \<and> length R' = n
           \<and> (\<forall>a<n. D' ! a = (if a = i then D ! i \<union> {j. j < m \<and> dependsOn HP heap dts i j} else D ! a))
           \<and> (\<forall>b<n. R' ! b = (if b < m \<and> dependsOn HP heap dts i b then R ! b @ [i] else R ! b))"
  using assms(4)
proof (induction m)
  case 0
  then show ?case using assms(1,2) by simp
next
  case (Suc m)
  then obtain D' R' where f: "fold (recordDependency HP heap dts i) [0..<m] (D, R) = (D', R')"
    and l: "length D' = n" "length R' = n"
    and d: "\<forall>a<n. D' ! a = (if a = i then D ! i \<union> {j. j < m \<and> dependsOn HP heap dts i j} else D ! a)"
    and r: "\<forall>b<n. R' ! b = (if b < m \<and> dependsOn HP heap dts i b then R ! b @ [i] else R ! b)"
    by auto
  have mn: "m < n" using Suc.prems by simp
  show ?case
  proof (cases "dependsOn HP heap dts i m")
    case True
    have "{j. j < Suc m \<and> dependsOn HP heap dts i j} = insert m {j. j < m \<and> dependsOn HP heap dts i j}"
      using True by (auto simp: less_Suc_eq)
    then show ?thesis using f l d r mn assms(3) True
      by (auto simp: recordDependency_simp nth_list_update less_Suc_eq)
  next
    case False
    have "{j. j < Suc m \<and> dependsOn HP heap dts i j} = {j. j < m \<and> dependsOn HP heap dts i j}"
      using False by (auto simp: less_Suc_eq)
    then show ?thesis using f l d r mn assms(3) False
      by (auto simp: recordDependency_simp nth_list_update less_Suc_eq)
  qed
qed

lemma outer_fold:
  assumes "k \<le> n"
  shows "\<exists>D R. fold (\<lambda>i. fold (recordDependency HP heap dts i) [0..<n]) [0..<k]
                  (replicate n {}, replicate n []) = (D, R)
           \<and> length D = n \<and> length R = n
           \<and> (\<forall>a<n. D ! a = (if a < k then {j. j < n \<and> dependsOn HP heap dts a j} else {}))
           \<and> (\<forall>b<n. R ! b = filter (\<lambda>i. dependsOn HP heap dts i b) [0..<k])"
  using assms
proof (induction k)
  case 0
  then show ?case by simp
next
  case (Suc k)
  then obtain D R where f: "fold (\<lambda>i. fold (recordDependency HP heap dts i) [0..<n]) [0..<k]
                  (replicate n {}, replicate n []) = (D, R)"
    and l: "length D = n" "length R = n"
    and d: "\<forall>a<n. D ! a = (if a < k then {j. j < n \<and> dependsOn HP heap dts a j} else {})"
    and r: "\<forall>b<n. R ! b = filter (\<lambda>i. dependsOn HP heap dts i b) [0..<k]"
    by auto
  have kn: "k < n" using Suc.prems by simp
  from inner_fold[OF l kn order_refl, of HP heap dts]
  obtain D' R' where f': "fold (recordDependency HP heap dts k) [0..<n] (D, R) = (D', R')"
    and l': "length D' = n" "length R' = n"
    and d': "\<forall>a<n. D' ! a = (if a = k then D ! k \<union> {j. j < n \<and> dependsOn HP heap dts k j} else D ! a)"
    and r': "\<forall>b<n. R' ! b = (if b < n \<and> dependsOn HP heap dts k b then R ! b @ [k] else R ! b)"
    by blast
  have "fold (\<lambda>i. fold (recordDependency HP heap dts i) [0..<n]) [0..<Suc k]
                  (replicate n {}, replicate n []) = (D', R')"
    using f f' by simp
  moreover have "\<forall>a<n. D' ! a = (if a < Suc k then {j. j < n \<and> dependsOn HP heap dts a j} else {})"
    using d d' kn by (auto simp: less_Suc_eq)
  moreover have "\<forall>b<n. R' ! b = filter (\<lambda>i. dependsOn HP heap dts i b) [0..<Suc k]"
    using r r' by auto
  ultimately show ?case using l' by blast
qed

lemma computeDependencies_spec:
  "\<exists>D R. computeDependencies HP heap dts = (D, R)
     \<and> length D = length dts \<and> length R = length dts
     \<and> (\<forall>a<length dts. D ! a = {j. j < length dts \<and> dependsOn HP heap dts a j})
     \<and> (\<forall>b<length dts. R ! b = filter (\<lambda>i. dependsOn HP heap dts i b) [0..<length dts])"
  using outer_fold[OF order_refl, of HP heap dts "length dts"]
  by (auto simp: computeDependencies_def Let_def)

text \<open>The loops that only append entries, and the inner loop of the main pass.\<close>

lemma fold_push_back:
  "fold (\<lambda>i r. if P i then r @ [f i] else r) xs r0 = r0 @ map f (filter P xs)"
  by (induction xs arbitrary: r0) auto

lemma scheduleIndependent_eq:
  "scheduleIndependent dts D =
     map (newEntry dts) (filter (\<lambda>d. D ! d = {}) [0..<length dts])"
  by (simp add: scheduleIndependent_def fold_push_back)

lemma scheduleCycles_eq:
  "scheduleCycles dts D res =
     (if length res < length dts
      then res @ map (newEntry dts) (filter (\<lambda>d. D ! d \<noteq> {}) [0..<length dts])
      else res)"
  by (simp add: scheduleCycles_def fold_push_back)

lemma releaseDependent_simp:
  "releaseDependent dts i y d (D, res) =
     (D[d := D ! d - {y}],
      setFlag i (if D[d := D ! d - {y}] ! d = {} then res @ [newEntry dts d] else res))"
  by (simp add: releaseDependent_def Let_def setFlag_def)

lemma setFlag_append: "i < length xs \<Longrightarrow> setFlag i xs @ ys = setFlag i (xs @ ys)"
  by (simp add: setFlag_def list_update_append nth_append)

lemma setFlag_idem: "setFlag i (setFlag i xs) = setFlag i xs"
  by (cases "i < length xs") (simp_all add: setFlag_def list_update_beyond)

lemma length_setFlag [simp]: "length (setFlag i xs) = length xs"
  by (simp add: setFlag_def)

lemma length_eraseAll [simp]: "length (eraseAll y ds D) = length D"
  unfolding eraseAll_def by (induction ds arbitrary: D) auto

lemma eraseAll_Cons: "eraseAll y (d # ds) D = eraseAll y ds (D[d := D ! d - {y}])"
  by (simp add: eraseAll_def)

lemma nth_eraseAll:
  "a < length D \<Longrightarrow> \<forall>d\<in>set ds. d < length D \<Longrightarrow>
   eraseAll y ds D ! a = (if a \<in> set ds then D ! a - {y} else D ! a)"
proof (induction ds arbitrary: D)
  case Nil
  then show ?case by (simp add: eraseAll_def)
next
  case (Cons d ds)
  have "eraseAll y ds (D[d := D ! d - {y}]) ! a =
        (if a \<in> set ds then D[d := D ! d - {y}] ! a - {y} else D[d := D ! d - {y}] ! a)"
    using Cons.prems by (intro Cons.IH) auto
  then show ?case using Cons.prems
    by (auto simp: eraseAll_Cons nth_list_update)
qed

lemma inner_loop:
  assumes "i < length res" "distinct ds" "\<forall>d\<in>set ds. d < length D"
  shows "fold (releaseDependent dts i y) ds (D, res) =
           (eraseAll y ds D,
            if ds = [] then res
            else setFlag i (res @ map (newEntry dts) (filter (\<lambda>d. D ! d - {y} = {}) ds)))"
  using assms
proof (induction ds arbitrary: D res)
  case Nil
  then show ?case by (simp add: eraseAll_def)
next
  case (Cons d ds)
  let ?D1 = "D[d := D ! d - {y}]"
  let ?X = "if D ! d - {y} = {} then [newEntry dts d] else []"
  let ?res1 = "setFlag i (res @ ?X)"
  have dl: "d < length D" using Cons.prems by simp
  have step: "releaseDependent dts i y d (D, res) = (?D1, ?res1)"
    using dl by (simp add: releaseDependent_simp)
  have filt: "filter (\<lambda>d'. ?D1 ! d' - {y} = {}) ds = filter (\<lambda>d'. D ! d' - {y} = {}) ds"
  proof (rule filter_cong[OF refl])
    fix x assume "x \<in> set ds"
    then have "x \<noteq> d" using Cons.prems(2) by auto
    then show "(?D1 ! x - {y} = {}) = (D ! x - {y} = {})" by simp
  qed
  have ih: "fold (releaseDependent dts i y) ds (?D1, ?res1) =
           (eraseAll y ds ?D1,
            if ds = [] then ?res1
            else setFlag i (?res1 @ map (newEntry dts) (filter (\<lambda>d. ?D1 ! d - {y} = {}) ds)))"
    using Cons.prems by (intro Cons.IH) auto
  have il: "i < length (res @ ?X)" using Cons.prems(1) by simp
  have "setFlag i (?res1 @ map (newEntry dts) (filter (\<lambda>d. D ! d - {y} = {}) ds))
        = setFlag i (res @ map (newEntry dts) (filter (\<lambda>d. D ! d - {y} = {}) (d # ds)))"
    using setFlag_append[OF il] by (simp add: setFlag_idem)
  then show ?case using step ih filt
    by (simp add: eraseAll_Cons del: fold_simps)
qed

text \<open>The invariant of the main pass is kept by one round of its loop.\<close>

lemma map_update_same:
  "f v = f (xs ! i) \<Longrightarrow> map f (xs[i := v]) = map f xs"
proof (cases "i < length xs")
  case True
  assume "f v = f (xs ! i)"
  then have "(map f xs)[i := f v] = (map f xs)[i := map f xs ! i]" using True by simp
  then show ?thesis by (simp add: map_update del: nth_map)
next
  case False
  then show ?thesis by (simp add: list_update_beyond)
qed

lemma map_originalIndex_setFlag [simp]:
  "map originalIndex (setFlag i xs) = map originalIndex xs"
  by (simp add: setFlag_def map_update_same)

lemma map_drawTarget_setFlag [simp]:
  "map drawTarget (setFlag i xs) = map drawTarget xs"
  by (simp add: setFlag_def map_update_same)

lemma flag_setFlag:
  "k < length xs \<Longrightarrow>
   hasDependentDrawTargets (setFlag i xs ! k) = (k = i \<or> hasDependentDrawTargets (xs ! k))"
  by (cases "k = i") (simp_all add: setFlag_def)

lemma map_originalIndex_newEntry [simp]: "map originalIndex (map (newEntry dts) xs) = xs"
  by (induction xs) (simp_all add: newEntry_def)

lemma newEntry_sel [simp]:
  "originalIndex (newEntry dts d) = d"
  "drawTarget (newEntry dts d) = dts ! d"
  "hasDependentDrawTargets (newEntry dts d) = False"
  by (simp_all add: newEntry_def)

lemma distinct_nth_notin_take:
  "distinct xs \<Longrightarrow> i < length xs \<Longrightarrow> xs ! i \<notin> set (take i xs)"
  by (metis id_take_nth_drop distinct_append list.set_intros(1) disjoint_iff)

lemma sortInv_step:
  assumes inv: "sortInv dts D0 R i D res" and i: "i < length res"
    and R: "\<forall>b<length dts. distinct (R ! b) \<and> set (R ! b) = {d. d < length dts \<and> b \<in> D0 ! d}"
  shows "\<exists>D' res'. fold (releaseDependent dts i (originalIndex (res ! i)))
                         (R ! originalIndex (res ! i)) (D, res) = (D', res')
                    \<and> sortInv dts D0 R (Suc i) D' res'"
proof -
  define n where "n = length dts"
  define I where "I = map originalIndex res"
  define y where "y = originalIndex (res ! i)"
  define N where "N = filter (\<lambda>d. D ! d - {y} = {}) (R ! y)"
  define res' where "res' = (if R ! y = [] then res else setFlag i (res @ map (newEntry dts) N))"
  define D' where "D' = eraseAll y (R ! y) D"
  have lD: "length D = n" and dI: "distinct I"
    and ent: "\<forall>k<length res. originalIndex (res ! k) < n
                         \<and> drawTarget (res ! k) = dts ! originalIndex (res ! k)"
    and Dd: "\<forall>d<n. D ! d = D0 ! d - set (take i I)"
    and sch: "\<forall>d<n. (d \<in> set I) = (D ! d = {})"
    and ord: "\<forall>k<length res. D0 ! originalIndex (res ! k) \<subseteq> set (take k I)"
    and flg: "\<forall>k<length res. hasDependentDrawTargets (res ! k)
                           = (k < i \<and> R ! originalIndex (res ! k) \<noteq> [])"
    using inv unfolding sortInv_def n_def I_def by blast+
  have lI: "length I = length res" by (simp add: I_def)
  have yI: "y = I ! i" using i by (simp add: y_def I_def)
  have yn: "y < n" using ent i by (simp add: y_def)
  have Ry: "distinct (R ! y)" "set (R ! y) = {d. d < n \<and> y \<in> D0 ! d}"
    using R yn unfolding n_def by auto
  have ynot: "y \<notin> set (take i I)"
    using distinct_nth_notin_take[OF dI] i lI yI by simp
  have take_Suc: "set (take (Suc i) I) = insert y (set (take i I))"
    using i lI yI by (simp add: take_Suc_conv_app_nth)
  have Rn: "\<forall>d\<in>set (R ! y). d < length D" using Ry lD by auto
  have loop: "fold (releaseDependent dts i y) (R ! y) (D, res) = (D', res')"
    using inner_loop[OF i Ry(1) Rn, of dts y] by (simp add: D'_def res'_def N_def)
  have lD': "length D' = n" by (simp add: D'_def lD)
  have D'd: "D' ! d = D ! d - {y}" if "d < n" for d
  proof -
    have "D' ! d = (if d \<in> set (R ! y) then D ! d - {y} else D ! d)"
      unfolding D'_def using that lD Rn by (intro nth_eraseAll) auto
    moreover have "y \<notin> D ! d" if "d \<notin> set (R ! y)"
      using that Ry(2) Dd \<open>d < n\<close> by auto
    ultimately show ?thesis by auto
  qed
  have N_empty: "R ! y = [] \<Longrightarrow> N = []" by (simp add: N_def)
  have I': "map originalIndex res' = I @ N"
    using N_empty map_originalIndex_newEntry[of dts N]
    by (auto simp: res'_def I_def simp del: map_map)
  have lres': "length res' = length res + length N"
    using N_empty by (auto simp: res'_def)
  have Nprop: "d < n \<and> y \<in> D ! d \<and> D ! d - {y} = {}" if "d \<in> set N" for d
  proof -
    have "d \<in> set (R ! y)" "D ! d - {y} = {}" using that by (auto simp: N_def)
    then have "d < n" "y \<in> D0 ! d" using Ry(2) by auto
    then have "y \<in> D ! d" using Dd ynot by simp
    then show ?thesis using \<open>d < n\<close> \<open>D ! d - {y} = {}\<close> by simp
  qed
  have nth_old: "originalIndex (res' ! k) = originalIndex (res ! k)
                 \<and> drawTarget (res' ! k) = drawTarget (res ! k)
                 \<and> hasDependentDrawTargets (res' ! k)
                     = ((k = i \<and> R ! y \<noteq> []) \<or> hasDependentDrawTargets (res ! k))"
    if "k < length res" for k
  proof (cases "R ! y = []")
    case True
    then show ?thesis by (simp add: res'_def)
  next
    case False
    have "originalIndex (res' ! k) = map originalIndex res' ! k"
      using that lres' by simp
    moreover have "drawTarget (res' ! k) = map drawTarget res' ! k"
      using that lres' by simp
    moreover have "map drawTarget res' = map drawTarget res @ map (\<lambda>d. dts ! d) N"
      using False by (simp add: res'_def newEntry_def comp_def)
    ultimately show ?thesis using that False I' lI
      by (simp add: nth_append I_def) (simp add: res'_def flag_setFlag nth_append)
  qed
  have nth_new: "originalIndex (res' ! k) = N ! (k - length res)
                 \<and> drawTarget (res' ! k) = dts ! (N ! (k - length res))
                 \<and> \<not> hasDependentDrawTargets (res' ! k)"
    if "length res \<le> k" "k < length res'" for k
  proof -
    have ne: "R ! y \<noteq> []" using that lres' N_empty by auto
    have ki: "k \<noteq> i" using that i by simp
    have "res' ! k = (res @ map (newEntry dts) N) ! k"
      using ne ki by (simp add: res'_def setFlag_def)
    also have "\<dots> = newEntry dts (N ! (k - length res))"
      using that lres' by (simp add: nth_append)
    finally show ?thesis by simp
  qed
  have c2: "Suc i \<le> length res'" using i lres' by simp
  have c3: "distinct (map originalIndex res')"
  proof -
    have "distinct N" using Ry(1) by (simp add: N_def)
    moreover have "set I \<inter> set N = {}"
    proof -
      have "d \<notin> set I" if "d \<in> set N" for d
        using Nprop[OF that] sch by auto
      then show ?thesis by auto
    qed
    ultimately show ?thesis using dI I' by simp
  qed
  have c4: "\<forall>k<length res'. originalIndex (res' ! k) < n
                         \<and> drawTarget (res' ! k) = dts ! originalIndex (res' ! k)"
  proof (intro allI impI)
    fix k assume k: "k < length res'"
    show "originalIndex (res' ! k) < n \<and> drawTarget (res' ! k) = dts ! originalIndex (res' ! k)"
    proof (cases "k < length res")
      case True
      then show ?thesis using nth_old[OF True] ent by simp
    next
      case False
      then have "N ! (k - length res) \<in> set N" using k lres' by simp
      then show ?thesis using nth_new[of k] False k Nprop by simp
    qed
  qed
  have c5: "\<forall>d<n. D' ! d = D0 ! d - set (take (Suc i) (map originalIndex res'))"
  proof (intro allI impI)
    fix d assume d: "d < n"
    have "take (Suc i) (map originalIndex res') = take (Suc i) I"
      using I' i lI by simp
    then show "D' ! d = D0 ! d - set (take (Suc i) (map originalIndex res'))"
      using D'd[OF d] Dd d take_Suc by auto
  qed
  have c6: "\<forall>d<n. (d \<in> set (map originalIndex res')) = (D' ! d = {})"
  proof (intro allI impI)
    fix d assume d: "d < n"
    show "(d \<in> set (map originalIndex res')) = (D' ! d = {})"
    proof
      assume "d \<in> set (map originalIndex res')"
      then consider "d \<in> set I" | "d \<in> set N" using I' by auto
      then show "D' ! d = {}"
      proof cases
        case 1
        then show ?thesis using sch d D'd[OF d] by simp
      next
        case 2
        then show ?thesis using Nprop[OF 2] D'd[OF d] by simp
      qed
    next
      assume e: "D' ! d = {}"
      then have s: "D ! d - {y} = {}" using D'd[OF d] by simp
      show "d \<in> set (map originalIndex res')"
      proof (cases "D ! d = {}")
        case True
        then show ?thesis using sch d I' by simp
      next
        case False
        then have "y \<in> D ! d" using s by auto
        then have "y \<in> D0 ! d" using Dd d by simp
        then have "d \<in> set (R ! y)" using Ry(2) d by simp
        then have "d \<in> set N" using s by (simp add: N_def)
        then show ?thesis using I' by simp
      qed
    qed
  qed
  have c7: "\<forall>k<length res'. D0 ! originalIndex (res' ! k)
                              \<subseteq> set (take k (map originalIndex res'))"
  proof (intro allI impI)
    fix k assume k: "k < length res'"
    show "D0 ! originalIndex (res' ! k) \<subseteq> set (take k (map originalIndex res'))"
    proof (cases "k < length res")
      case True
      then have "take k (map originalIndex res') = take k I" using I' lI by simp
      then show ?thesis using nth_old[OF True] ord True by simp
    next
      case False
      define d where "d = N ! (k - length res)"
      have dN: "d \<in> set N" using k lres' False by (simp add: d_def)
      have dn: "d < n" using Nprop[OF dN] by simp
      have "D0 ! d - set (take i I) - {y} = {}" using Nprop[OF dN] Dd dn by simp
      then have "D0 ! d \<subseteq> set (take (Suc i) I)" using take_Suc by auto
      moreover have "set (take (Suc i) I) \<subseteq> set (take k (map originalIndex res'))"
      proof -
        have "Suc i \<le> k" using i False by simp
        then have "set (take (Suc i) (I @ N)) \<subseteq> set (take k (I @ N))"
          by (rule set_take_subset_set_take)
        moreover have "take (Suc i) (I @ N) = take (Suc i) I" using i lI by simp
        ultimately show ?thesis using I' by simp
      qed
      ultimately show ?thesis using nth_new[of k] False k by (simp add: d_def)
    qed
  qed
  have c8: "\<forall>k<length res'. hasDependentDrawTargets (res' ! k)
                           = (k < Suc i \<and> R ! originalIndex (res' ! k) \<noteq> [])"
  proof (intro allI impI)
    fix k assume k: "k < length res'"
    show "hasDependentDrawTargets (res' ! k)
            = (k < Suc i \<and> R ! originalIndex (res' ! k) \<noteq> [])"
    proof (cases "k < length res")
      case True
      show ?thesis
      proof (cases "k = i")
        case ki: True
        then show ?thesis using nth_old[OF True] flg True by (simp add: y_def)
      next
        case False
        then show ?thesis using nth_old[OF True] flg True by (auto simp: less_Suc_eq)
      qed
    next
      case False
      then show ?thesis using nth_new[of k] k i by simp
    qed
  qed
  have "sortInv dts D0 R (Suc i) D' res'"
    unfolding sortInv_def using lD' c2 c3 c4 c5 c6 c7 c8 unfolding n_def by blast
  then show ?thesis using loop unfolding y_def by blast
qed

text \<open>
  The main pass ends: the result never holds more entries than there are draw targets,
  and every round of the loop moves one position on.
\<close>

lemma sortInv_length:
  assumes "sortInv dts D0 R i D res"
  shows "length res \<le> length dts"
proof -
  have d: "distinct (map originalIndex res)"
    and b: "\<forall>k<length res. originalIndex (res ! k) < length dts"
    using assms unfolding sortInv_def by blast+
  have "set (map originalIndex res) \<subseteq> {..<length dts}"
    using b by (auto simp: in_set_conv_nth)
  then have "card (set (map originalIndex res)) \<le> card {..<length dts}"
    by (intro card_mono) auto
  then show ?thesis using distinct_card[OF d] by simp
qed

lemma scheduleLoop_spec:
  assumes R: "\<forall>b<length dts. distinct (R ! b) \<and> set (R ! b) = {d. d < length dts \<and> b \<in> D0 ! d}"
  shows "sortInv dts D0 R i D res \<Longrightarrow>
         \<exists>D' res'. scheduleLoop dts R i D res = Some (D', res')
                    \<and> sortInv dts D0 R (length res') D' res'"
proof (induction "length dts - i" arbitrary: i D res rule: less_induct)
  case less
  show ?case
  proof (cases "i < length res")
    case True
    from sortInv_step[OF less.prems True R]
    obtain D1 res1 where
      f: "fold (releaseDependent dts i (originalIndex (res ! i)))
               (R ! originalIndex (res ! i)) (D, res) = (D1, res1)"
      and inv1: "sortInv dts D0 R (Suc i) D1 res1"
      by blast
    have "i < length dts" using True sortInv_length[OF less.prems] by simp
    then have "length dts - Suc i < length dts - i" by simp
    from less.hyps[OF this inv1]
    obtain D' res' where "scheduleLoop dts R (Suc i) D1 res1 = Some (D', res')"
      and "sortInv dts D0 R (length res') D' res'"
      by blast
    moreover have "scheduleLoop dts R i D res = scheduleLoop dts R (Suc i) D1 res1"
      by (subst scheduleLoop.simps) (simp add: True f)
    ultimately show ?thesis by simp
  next
    case False
    then have "i = length res" using less.prems unfolding sortInv_def by simp
    moreover have "scheduleLoop dts R i D res = Some (D, res)"
      by (subst scheduleLoop.simps) (simp add: False)
    ultimately show ?thesis using less.prems by simp
  qed
qed

lemma sortInv_initial:
  assumes "length D0 = length dts"
  shows "sortInv dts D0 R 0 D0 (scheduleIndependent dts D0)"
proof -
  define I where "I = filter (\<lambda>d. D0 ! d = {}) [0..<length dts]"
  have res: "scheduleIndependent dts D0 = map (newEntry dts) I"
    by (simp add: scheduleIndependent_eq I_def)
  have I: "map originalIndex (scheduleIndependent dts D0) = I"
    by (simp add: res del: map_map)
  have nth: "scheduleIndependent dts D0 ! k = newEntry dts (I ! k)" if "k < length I" for k
    using that by (simp add: res)
  have mem: "I ! k < length dts \<and> D0 ! (I ! k) = {}" if "k < length I" for k
  proof -
    have "I ! k \<in> set I" using that by simp
    then show ?thesis by (simp add: I_def)
  qed
  have l: "length (scheduleIndependent dts D0) = length I" by (simp add: res)
  show ?thesis
    unfolding sortInv_def I l
    using assms nth mem by (auto simp: I_def)
qed

text \<open>What the main pass returns, in terms of the dependencies between the indices.\<close>

lemma mainPass_spec:
  "\<exists>D res. mainPass HP heap dts = Some (D, res)
     \<and> length D = length dts
     \<and> distinct (map originalIndex res)
     \<and> (\<forall>k<length res. originalIndex (res ! k) < length dts
                         \<and> drawTarget (res ! k) = dts ! originalIndex (res ! k))
     \<and> (\<forall>d<length dts. D ! d = {j. j < length dts \<and> dependsOn HP heap dts d j
                                       \<and> j \<notin> set (map originalIndex res)})
     \<and> (\<forall>d<length dts. (d \<in> set (map originalIndex res)) = (D ! d = {}))
     \<and> (\<forall>k<length res. \<forall>j<length dts. dependsOn HP heap dts (originalIndex (res ! k)) j
                           \<longrightarrow> j \<in> set (take k (map originalIndex res)))
     \<and> (\<forall>k<length res. hasDependentDrawTargets (res ! k)
                           = (\<exists>d<length dts. dependsOn HP heap dts d (originalIndex (res ! k))))"
proof -
  obtain D0 R where cd: "computeDependencies HP heap dts = (D0, R)"
    and l: "length D0 = length dts" "length R = length dts"
    and d0: "\<forall>a<length dts. D0 ! a = {j. j < length dts \<and> dependsOn HP heap dts a j}"
    and r: "\<forall>b<length dts. R ! b = filter (\<lambda>i. dependsOn HP heap dts i b) [0..<length dts]"
    using computeDependencies_spec[of HP heap dts] by blast
  have R: "\<forall>b<length dts. distinct (R ! b) \<and> set (R ! b) = {d. d < length dts \<and> b \<in> D0 ! d}"
    using r d0 by auto
  from scheduleLoop_spec[OF R sortInv_initial[OF l(1)]]
  obtain D res where sl: "scheduleLoop dts R 0 D0 (scheduleIndependent dts D0) = Some (D, res)"
    and inv: "sortInv dts D0 R (length res) D res"
    by blast
  have mp: "mainPass HP heap dts = Some (D, res)"
    using cd sl by (simp add: mainPass_def)
  have lD: "length D = length dts" and dI: "distinct (map originalIndex res)"
    and ent: "\<forall>k<length res. originalIndex (res ! k) < length dts
                         \<and> drawTarget (res ! k) = dts ! originalIndex (res ! k)"
    and Dd: "\<forall>d<length dts. D ! d = D0 ! d - set (take (length res) (map originalIndex res))"
    and sch: "\<forall>d<length dts. (d \<in> set (map originalIndex res)) = (D ! d = {})"
    and ord: "\<forall>k<length res. D0 ! originalIndex (res ! k) \<subseteq> set (take k (map originalIndex res))"
    and flg: "\<forall>k<length res. hasDependentDrawTargets (res ! k)
                           = (k < length res \<and> R ! originalIndex (res ! k) \<noteq> [])"
    using inv unfolding sortInv_def by blast+
  have p5: "\<forall>d<length dts. D ! d = {j. j < length dts \<and> dependsOn HP heap dts d j
                                       \<and> j \<notin> set (map originalIndex res)}"
    using Dd d0 by auto
  have p7: "\<forall>k<length res. \<forall>j<length dts. dependsOn HP heap dts (originalIndex (res ! k)) j
                           \<longrightarrow> j \<in> set (take k (map originalIndex res))"
    using ord ent d0 by blast
  have p8: "\<forall>k<length res. hasDependentDrawTargets (res ! k)
                           = (\<exists>d<length dts. dependsOn HP heap dts d (originalIndex (res ! k)))"
  proof (intro allI impI)
    fix k assume k: "k < length res"
    then have b: "originalIndex (res ! k) < length dts" using ent by simp
    have "(R ! originalIndex (res ! k) \<noteq> []) = (set (R ! originalIndex (res ! k)) \<noteq> {})"
      by simp
    also have "\<dots> = (\<exists>d<length dts. dependsOn HP heap dts d (originalIndex (res ! k)))"
      using r b by auto
    finally show "hasDependentDrawTargets (res ! k)
                           = (\<exists>d<length dts. dependsOn HP heap dts d (originalIndex (res ! k)))"
      using flg k by simp
  qed
  show ?thesis using mp lD dI ent p5 sch p7 p8 by blast
qed

text \<open>The result of the sort: the entries of the main pass, then the indices it left.\<close>

lemma complete_indices:
  assumes "distinct I" "set I \<subseteq> {..<n}"
  shows "distinct (I @ filter (\<lambda>i. i \<notin> set I) [0..<n])"
    and "set (I @ filter (\<lambda>i. i \<notin> set I) [0..<n]) = {..<n}"
    and "length (I @ filter (\<lambda>i. i \<notin> set I) [0..<n]) = n"
proof -
  show d: "distinct (I @ filter (\<lambda>i. i \<notin> set I) [0..<n])"
    using assms by auto
  show s: "set (I @ filter (\<lambda>i. i \<notin> set I) [0..<n]) = {..<n}"
    using assms by auto
  show "length (I @ filter (\<lambda>i. i \<notin> set I) [0..<n]) = n"
    using distinct_card[OF d] unfolding s by simp
qed

lemma sort_structure:
  "\<exists>D scheduled. mainPass HP heap dts = Some (D, scheduled)
     \<and> SortDrawTargets HP heap dts
         = Some (scheduled @ map (newEntry dts) (unscheduled (length dts) scheduled), [])
     \<and> distinct (map originalIndex scheduled)
     \<and> set (map originalIndex scheduled) \<subseteq> {..<length dts}
     \<and> map drawTarget scheduled = map ((!) dts) (map originalIndex scheduled)
     \<and> (\<forall>k<length scheduled. \<forall>j<length dts.
            dependsOn HP heap dts (originalIndex (scheduled ! k)) j
              \<longrightarrow> j \<in> set (take k (map originalIndex scheduled)))
     \<and> (\<forall>d<length dts. d \<notin> set (map originalIndex scheduled)
            \<longrightarrow> (\<exists>j<length dts. dependsOn HP heap dts d j
                                  \<and> j \<notin> set (map originalIndex scheduled)))
     \<and> (\<forall>k<length scheduled. hasDependentDrawTargets (scheduled ! k)
            = (\<exists>d<length dts. dependsOn HP heap dts d (originalIndex (scheduled ! k))))"
proof -
  obtain D res where mp: "mainPass HP heap dts = Some (D, res)"
    and lD: "length D = length dts"
    and dI: "distinct (map originalIndex res)"
    and ent: "\<forall>k<length res. originalIndex (res ! k) < length dts
                         \<and> drawTarget (res ! k) = dts ! originalIndex (res ! k)"
    and Dd: "\<forall>d<length dts. D ! d = {j. j < length dts \<and> dependsOn HP heap dts d j
                                       \<and> j \<notin> set (map originalIndex res)}"
    and sch: "\<forall>d<length dts. (d \<in> set (map originalIndex res)) = (D ! d = {})"
    and ord: "\<forall>k<length res. \<forall>j<length dts. dependsOn HP heap dts (originalIndex (res ! k)) j
                           \<longrightarrow> j \<in> set (take k (map originalIndex res))"
    and flg: "\<forall>k<length res. hasDependentDrawTargets (res ! k)
                           = (\<exists>d<length dts. dependsOn HP heap dts d (originalIndex (res ! k)))"
    using mainPass_spec[of HP heap dts] by blast
  define I where "I = map originalIndex res"
  have sI: "set I \<subseteq> {..<length dts}"
    using ent by (auto simp: I_def in_set_conv_nth)
  have dts: "map drawTarget res = map ((!) dts) I"
    unfolding I_def by (rule nth_equalityI) (simp_all add: ent)
  have filt: "filter (\<lambda>d. D ! d \<noteq> {}) [0..<length dts] = unscheduled (length dts) res"
    unfolding unscheduled_def using sch by (intro filter_cong) auto
  have len: "length (I @ unscheduled (length dts) res) = length dts"
    using complete_indices(3)[OF dI[folded I_def] sI] by (simp add: unscheduled_def I_def)
  have full: "unscheduled (length dts) res = []" if "\<not> length res < length dts"
  proof -
    have "length (unscheduled (length dts) res) = 0"
      using that len by (simp add: I_def del: length_0_conv)
    then show ?thesis by simp
  qed
  have cyc: "scheduleCycles dts D res = res @ map (newEntry dts) (unscheduled (length dts) res)"
    using filt full by (simp add: scheduleCycles_eq)
  have lres: "length (scheduleCycles dts D res) = length dts"
    using len by (simp add: cyc I_def)
  have sort: "SortDrawTargets HP heap dts
         = Some (res @ map (newEntry dts) (unscheduled (length dts) res), [])"
  proof (cases "dts = []")
    case True
    then have "res = []" using ent by (cases res) auto
    then show ?thesis using True by (simp add: SortDrawTargets_def unscheduled_def)
  next
    case False
    then show ?thesis using mp lres by (simp add: SortDrawTargets_def Let_def cyc)
  qed
  have stuck: "\<forall>d<length dts. d \<notin> set (map originalIndex res)
            \<longrightarrow> (\<exists>j<length dts. dependsOn HP heap dts d j
                                  \<and> j \<notin> set (map originalIndex res))"
  proof (intro allI impI)
    fix d assume d: "d < length dts" "d \<notin> set (map originalIndex res)"
    then have "D ! d \<noteq> {}" using sch by simp
    then show "\<exists>j<length dts. dependsOn HP heap dts d j \<and> j \<notin> set (map originalIndex res)"
      using Dd d(1) by auto
  qed
  show ?thesis using mp sort dI sI dts ord stuck flg unfolding I_def by blast
qed

section \<open>Properties of the topological sort\<close>

text \<open>
  Acyclic graphs leave nothing unscheduled, and no index on a cycle is ever scheduled by
  the main pass.
\<close>

lemma finite_dependencyGraph: "finite (dependencyGraph HP heap dts)"
proof -
  have "dependencyGraph HP heap dts \<subseteq> {..<length dts} \<times> {..<length dts}"
    by (auto simp: dependencyGraph_def)
  then show ?thesis by (rule finite_subset) simp
qed

lemma acyclic_no_stuck_set:
  assumes ac: "acyclic G" and fin: "finite G"
    and stuck: "\<forall>d\<in>U. \<exists>j\<in>U. (d, j) \<in> G"
  shows "U = {}"
proof (rule ccontr)
  assume "U \<noteq> {}"
  then obtain u where u: "u \<in> U" by auto
  have "wf (G\<inverse>)" using fin ac by (rule finite_acyclic_wf_converse)
  from wfE_min[OF this u]
  obtain z where z: "z \<in> U" and min: "\<And>y. (y, z) \<in> G\<inverse> \<Longrightarrow> y \<notin> U" by blast
  from stuck z obtain j where "j \<in> U" "(z, j) \<in> G" by blast
  then show False using min[of j] by simp
qed

lemma position_before:
  assumes "x \<in> set (take k I)"
  shows "\<exists>i<k. i < length I \<and> I ! i = x"
proof -
  from assms obtain i where "i < length (take k I)" "take k I ! i = x"
    by (auto simp: in_set_conv_nth)
  then show ?thesis by (intro exI[of _ i]) simp
qed

lemma dependency_chain_before:
  assumes ord: "\<forall>k<length I. \<forall>j<n. (I ! k, j) \<in> G \<longrightarrow> j \<in> set (take k I)"
    and dom: "G \<subseteq> {..<n} \<times> {..<n}"
    and path: "(x, y) \<in> G\<^sup>+"
  shows "\<forall>k<length I. I ! k = x \<longrightarrow> (\<exists>i<k. I ! i = y)"
  using path
proof (induction rule: trancl_induct)
  case (base y)
  show ?case
  proof (intro allI impI)
    fix k assume k: "k < length I" "I ! k = x"
    have yn: "y < n" using base dom by auto
    have "(I ! k, y) \<in> G" using base k by simp
    then have "y \<in> set (take k I)" using ord[rule_format, OF k(1) yn] by simp
    then show "\<exists>i<k. I ! i = y" using position_before[of y k I] by blast
  qed
next
  case (step y z)
  show ?case
  proof (intro allI impI)
    fix k assume k: "k < length I" "I ! k = x"
    then obtain i where i: "i < k" "I ! i = y" using step.IH by blast
    have il: "i < length I" using i(1) k(1) by simp
    have zn: "z < n" using step.hyps(2) dom by auto
    have "(I ! i, z) \<in> G" using step.hyps(2) i by simp
    then have "z \<in> set (take i I)" using ord[rule_format, OF il zn] by simp
    then obtain i' where "i' < i" "I ! i' = z" using position_before[of z i I] by blast
    then show "\<exists>i<k. I ! i = z" using i(1) by (intro exI[of _ i']) simp
  qed
qed

lemma ord_on_graph:
  assumes "\<forall>k<length res. \<forall>j<length dts.
            dependsOn HP heap dts (originalIndex (res ! k)) j
              \<longrightarrow> j \<in> set (take k (map originalIndex res))"
  shows "\<forall>k<length (map originalIndex res). \<forall>j<length dts.
            (map originalIndex res ! k, j) \<in> dependencyGraph HP heap dts
              \<longrightarrow> j \<in> set (take k (map originalIndex res))"
  using assms by (simp add: dependencyGraph_def)

lemma graph_domain:
  "dependencyGraph HP heap dts \<subseteq> {..<length dts} \<times> {..<length dts}"
  by (auto simp: dependencyGraph_def)

lemma acyclic_all_scheduled:
  assumes ac: "acyclic (dependencyGraph HP heap dts)"
    and stuck: "\<forall>d<length dts. d \<notin> set I
            \<longrightarrow> (\<exists>j<length dts. dependsOn HP heap dts d j \<and> j \<notin> set I)"
  shows "filter (\<lambda>i. i \<notin> set I) [0..<length dts] = []"
proof -
  define U where "U = {d. d < length dts \<and> d \<notin> set I}"
  have "\<forall>d\<in>U. \<exists>j\<in>U. (d, j) \<in> dependencyGraph HP heap dts"
    using stuck by (auto simp: U_def dependencyGraph_def)
  then have "U = {}"
    using acyclic_no_stuck_set[OF ac finite_dependencyGraph] by blast
  then show ?thesis by (auto simp: U_def filter_empty_conv)
qed

lemma cycle_not_scheduled:
  assumes ord: "\<forall>k<length I. \<forall>j<n. (I ! k, j) \<in> G \<longrightarrow> j \<in> set (take k I)"
    and dom: "G \<subseteq> {..<n} \<times> {..<n}"
    and d: "distinct I"
    and cyc: "(x, x) \<in> G\<^sup>+"
  shows "x < n \<and> x \<notin> set I"
proof
  from cyc obtain z where "(x, z) \<in> G" by (blast dest: tranclD)
  then show "x < n" using dom by auto
next
  show "x \<notin> set I"
  proof
    assume "x \<in> set I"
    then obtain k where k: "k < length I" "I ! k = x" by (auto simp: in_set_conv_nth)
    with dependency_chain_before[OF ord dom cyc] obtain i where i: "i < k" "I ! i = x" by blast
    then have "I ! i = I ! k" "i < length I" using k by simp_all
    then have "i = k" using d k(1) by (simp add: nth_eq_iff_index_eq)
    then show False using i by simp
  qed
qed

text \<open>The two example vectors.\<close>

lemma chain_graph: "dependencyGraph textPrefix chainHeap chainTargets = {(0, 1)}"
proof -
  have "dependsOn textPrefix chainHeap chainTargets x y = (x = 0 \<and> y = 1)"
    if "x < 2" "y < 2" for x y
  proof -
    have "x = 0 \<or> x = 1" "y = 0 \<or> y = 1" using that by auto
    then show ?thesis
      by (auto simp: dependsOn_def IsDependentOn_def DoesCollectionContainPath_def
          chainHeap_def chainTargets_def exampleTarget_def textPrefix_def)
  qed
  then show ?thesis by (auto simp: dependencyGraph_def chainTargets_def)
qed

lemma chain_acyclic: "acyclic (dependencyGraph textPrefix chainHeap chainTargets)"
proof -
  have "acyclic ({} :: (nat \<times> nat) set)" by (simp add: acyclic_def)
  then have "acyclic {(0 :: nat, 1 :: nat)}" by (simp add: acyclic_insert)
  then show ?thesis by (simp add: chain_graph)
qed

lemma chain_sort:
  "SortDrawTargets textPrefix chainHeap chainTargets
     = Some ([\<lparr>originalIndex = 1, drawTarget = Some 0, hasDependentDrawTargets = True\<rparr>,
              \<lparr>originalIndex = 0, drawTarget = Some 1, hasDependentDrawTargets = False\<rparr>], [])"
  by code_simp

lemma cycle_edges:
  "(0, 1) \<in> dependencyGraph textPrefix cycleHeap cycleTargets"
  "(1, 0) \<in> dependencyGraph textPrefix cycleHeap cycleTargets"
proof -
  have "dependsOn textPrefix cycleHeap cycleTargets 0 1" by code_simp
  then show "(0, 1) \<in> dependencyGraph textPrefix cycleHeap cycleTargets"
    by (simp add: dependencyGraph_def cycleTargets_def)
  have "dependsOn textPrefix cycleHeap cycleTargets 1 0" by code_simp
  then show "(1, 0) \<in> dependencyGraph textPrefix cycleHeap cycleTargets"
    by (simp add: dependencyGraph_def cycleTargets_def)
qed

lemma cycle_cyclic: "\<not> acyclic (dependencyGraph textPrefix cycleHeap cycleTargets)"
proof -
  have "(0, 0) \<in> (dependencyGraph textPrefix cycleHeap cycleTargets)\<^sup>+"
    using cycle_edges by (rule trancl_trans[OF r_into_trancl r_into_trancl])
  then show ?thesis unfolding acyclic_def by blast
qed

lemma cycle_sort:
  "SortDrawTargets textPrefix cycleHeap cycleTargets
     = Some ([\<lparr>originalIndex = 2, drawTarget = Some 2, hasDependentDrawTargets = True\<rparr>,
              \<lparr>originalIndex = 0, drawTarget = Some 0, hasDependentDrawTargets = False\<rparr>,
              \<lparr>originalIndex = 1, drawTarget = Some 1, hasDependentDrawTargets = False\<rparr>], [])"
  by code_simp

text \<open>
  Claim C4. For every vector of draw targets, empty or with cycles among its dependencies,
  the sort ends and returns one entry for each input draw target: the result is as long as
  the input, every original index occurs exactly once, each entry holds the draw target of
  its index, and no mismatch is reported.
\<close>

theorem sort_one_entry_per_target:
  "\<exists>result. SortDrawTargets HP heap dts = Some (result, [])
     \<and> length result = length dts
     \<and> distinct (map originalIndex result)
     \<and> set (map originalIndex result) = {..<length dts}
     \<and> map drawTarget result = map ((!) dts) (map originalIndex result)"
proof -
  obtain D scheduled where
    sort: "SortDrawTargets HP heap dts
         = Some (scheduled @ map (newEntry dts) (unscheduled (length dts) scheduled), [])"
    and d: "distinct (map originalIndex scheduled)"
    and s: "set (map originalIndex scheduled) \<subseteq> {..<length dts}"
    and t: "map drawTarget scheduled = map ((!) dts) (map originalIndex scheduled)"
    using sort_structure[of HP heap dts] by blast
  define result where
    "result = scheduled @ map (newEntry dts) (unscheduled (length dts) scheduled)"
  have I: "map originalIndex result
             = map originalIndex scheduled
               @ filter (\<lambda>i. i \<notin> set (map originalIndex scheduled)) [0..<length dts]"
    by (simp add: result_def unscheduled_def del: map_map)
  have "length (map originalIndex result) = length dts"
    unfolding I using complete_indices(3)[OF d s] .
  then have l: "length result = length dts" by simp
  have dr: "distinct (map originalIndex result)"
    unfolding I using complete_indices(1)[OF d s] .
  have sr: "set (map originalIndex result) = {..<length dts}"
    unfolding I using complete_indices(2)[OF d s] .
  have tr: "map drawTarget result = map ((!) dts) (map originalIndex result)"
    using t by (simp add: result_def newEntry_def comp_def)
  show ?thesis using sort l dr sr tr unfolding result_def by blast
qed



text \<open>
  Claim C5. When the dependency graph has a cycle, the main pass leaves some draw targets
  unscheduled, among them every one on a cycle; the result is the entries of the main
  pass followed by one new entry (flag false) for each unscheduled index, in ascending
  order of the original index.
\<close>

theorem cycle_leftovers_appended_in_order:
  assumes "\<not> acyclic (dependencyGraph HP heap dts)"
  shows "\<exists>D scheduled. mainPass HP heap dts = Some (D, scheduled)
           \<and> SortDrawTargets HP heap dts
               = Some (scheduled @ map (newEntry dts) (unscheduled (length dts) scheduled), [])
           \<and> unscheduled (length dts) scheduled \<noteq> []
           \<and> {x. (x, x) \<in> (dependencyGraph HP heap dts)\<^sup>+}
               \<subseteq> set (unscheduled (length dts) scheduled)"
proof -
  obtain D scheduled where
    mp: "mainPass HP heap dts = Some (D, scheduled)"
    and sort: "SortDrawTargets HP heap dts
         = Some (scheduled @ map (newEntry dts) (unscheduled (length dts) scheduled), [])"
    and d: "distinct (map originalIndex scheduled)"
    and ord: "\<forall>k<length scheduled. \<forall>j<length dts.
            dependsOn HP heap dts (originalIndex (scheduled ! k)) j
              \<longrightarrow> j \<in> set (take k (map originalIndex scheduled))"
    using sort_structure[of HP heap dts] by blast
  have sub: "{x. (x, x) \<in> (dependencyGraph HP heap dts)\<^sup>+}
               \<subseteq> set (unscheduled (length dts) scheduled)"
  proof
    fix x assume "x \<in> {x. (x, x) \<in> (dependencyGraph HP heap dts)\<^sup>+}"
    then have "(x, x) \<in> (dependencyGraph HP heap dts)\<^sup>+" by simp
    from cycle_not_scheduled[OF ord_on_graph[OF ord] graph_domain d this]
    show "x \<in> set (unscheduled (length dts) scheduled)"
      by (simp add: unscheduled_def)
  qed
  from assms obtain x where "(x, x) \<in> (dependencyGraph HP heap dts)\<^sup>+"
    unfolding acyclic_def by blast
  then have "x \<in> set (unscheduled (length dts) scheduled)" using sub by blast
  then have "unscheduled (length dts) scheduled \<noteq> []" by auto
  then show ?thesis using mp sort sub by blast
qed

text \<open>
  At the three draw targets with a cycle: the main pass schedules index 2 alone, and the
  entries of the indices 0 and 1 follow it in this order, with the flag false.
\<close>

theorem cycle_leftovers_appended_in_order_witness:
  "\<not> acyclic (dependencyGraph textPrefix cycleHeap cycleTargets)
   \<and> mainPass textPrefix cycleHeap cycleTargets
       = Some ([{1}, {0}, {}],
               [\<lparr>originalIndex = 2, drawTarget = Some 2, hasDependentDrawTargets = True\<rparr>])
   \<and> SortDrawTargets textPrefix cycleHeap cycleTargets
       = Some ([\<lparr>originalIndex = 2, drawTarget = Some 2, hasDependentDrawTargets = True\<rparr>,
                \<lparr>originalIndex = 0, drawTarget = Some 0, hasDependentDrawTargets = False\<rparr>,
                \<lparr>originalIndex = 1, drawTarget = Some 1, hasDependentDrawTargets = False\<rparr>], [])"
proof -
  from cycle_leftovers_appended_in_order[OF cycle_cyclic]
  obtain D scheduled where
    mp: "mainPass textPrefix cycleHeap cycleTargets = Some (D, scheduled)"
    and sort: "SortDrawTargets textPrefix cycleHeap cycleTargets
               = Some (scheduled @ map (newEntry cycleTargets)
                                       (unscheduled (length cycleTargets) scheduled), [])"
    by blast
  have v: "mainPass textPrefix cycleHeap cycleTargets
       = Some ([{1}, {0}, {}],
               [\<lparr>originalIndex = 2, drawTarget = Some 2, hasDependentDrawTargets = True\<rparr>])"
    by code_simp
  have u: "unscheduled (length cycleTargets)
             [\<lparr>originalIndex = 2, drawTarget = Some 2, hasDependentDrawTargets = True\<rparr>]
           = [0, 1]"
    by code_simp
  have "scheduled
          = [\<lparr>originalIndex = 2, drawTarget = Some 2, hasDependentDrawTargets = True\<rparr>]"
    using mp v by simp
  then have "SortDrawTargets textPrefix cycleHeap cycleTargets
       = Some ([\<lparr>originalIndex = 2, drawTarget = Some 2, hasDependentDrawTargets = True\<rparr>,
                \<lparr>originalIndex = 0, drawTarget = Some 0, hasDependentDrawTargets = False\<rparr>,
                \<lparr>originalIndex = 1, drawTarget = Some 1, hasDependentDrawTargets = False\<rparr>], [])"
    using sort u by (simp add: newEntry_def cycleTargets_def)
  then show ?thesis using cycle_cyclic v by simp
qed

text \<open>
  Claim C6, as the code has it. The flag of an entry is true exactly when the entry was
  scheduled by the main pass and some draw target of the vector depends on its draw
  target; the entries appended for the draw targets that the main pass left have the flag
  false. When the dependency graph is acyclic the main pass schedules every draw target,
  so the flag of every entry then says whether some draw target depends on it.
\<close>

theorem flag_of_main_pass_entries:
  "\<exists>D scheduled appended. mainPass HP heap dts = Some (D, scheduled)
     \<and> SortDrawTargets HP heap dts = Some (scheduled @ appended, [])
     \<and> (\<forall>k<length (scheduled @ appended).
           hasDependentDrawTargets ((scheduled @ appended) ! k)
             = (k < length scheduled
                \<and> (\<exists>d<length dts.
                      dependsOn HP heap dts d (originalIndex ((scheduled @ appended) ! k)))))
     \<and> (acyclic (dependencyGraph HP heap dts) \<longrightarrow> appended = [])"
proof -
  obtain D scheduled where
    mp: "mainPass HP heap dts = Some (D, scheduled)"
    and sort: "SortDrawTargets HP heap dts
         = Some (scheduled @ map (newEntry dts) (unscheduled (length dts) scheduled), [])"
    and stuck: "\<forall>d<length dts. d \<notin> set (map originalIndex scheduled)
            \<longrightarrow> (\<exists>j<length dts. dependsOn HP heap dts d j
                                  \<and> j \<notin> set (map originalIndex scheduled))"
    and flg: "\<forall>k<length scheduled. hasDependentDrawTargets (scheduled ! k)
            = (\<exists>d<length dts. dependsOn HP heap dts d (originalIndex (scheduled ! k)))"
    using sort_structure[of HP heap dts] by blast
  define appended where
    "appended = map (newEntry dts) (unscheduled (length dts) scheduled)"
  have f: "hasDependentDrawTargets ((scheduled @ appended) ! k)
             = (k < length scheduled
                \<and> (\<exists>d<length dts.
                      dependsOn HP heap dts d (originalIndex ((scheduled @ appended) ! k))))"
    if "k < length (scheduled @ appended)" for k
  proof (cases "k < length scheduled")
    case True
    then show ?thesis using flg by (simp add: nth_append)
  next
    case False
    then have "k - length scheduled < length (unscheduled (length dts) scheduled)"
      using that by (simp add: appended_def)
    then show ?thesis using False by (simp add: nth_append appended_def)
  qed
  have a: "appended = []" if "acyclic (dependencyGraph HP heap dts)"
    using acyclic_all_scheduled[OF that stuck] by (simp add: appended_def unscheduled_def)
  show ?thesis using mp sort f a unfolding appended_def[symmetric] by blast
qed

text \<open>
  At the chain: the graph is acyclic, and the first entry of the result has the flag true
  and a draw target that depends on it.
\<close>

theorem flag_of_main_pass_entries_witness:
  "acyclic (dependencyGraph textPrefix chainHeap chainTargets)
   \<and> (\<exists>result. SortDrawTargets textPrefix chainHeap chainTargets = Some (result, [])
         \<and> 0 < length result
         \<and> hasDependentDrawTargets (result ! 0)
         \<and> (\<exists>d<length chainTargets.
               dependsOn textPrefix chainHeap chainTargets d (originalIndex (result ! 0))))"
proof -
  from flag_of_main_pass_entries[of textPrefix chainHeap chainTargets]
  obtain D scheduled appended where
    sort: "SortDrawTargets textPrefix chainHeap chainTargets = Some (scheduled @ appended, [])"
    and f: "\<forall>k<length (scheduled @ appended).
           hasDependentDrawTargets ((scheduled @ appended) ! k)
             = (k < length scheduled
                \<and> (\<exists>d<length chainTargets.
                      dependsOn textPrefix chainHeap chainTargets d
                        (originalIndex ((scheduled @ appended) ! k))))"
    by blast
  have v: "scheduled @ appended
     = [\<lparr>originalIndex = 1, drawTarget = Some 0, hasDependentDrawTargets = True\<rparr>,
        \<lparr>originalIndex = 0, drawTarget = Some 1, hasDependentDrawTargets = False\<rparr>]"
    using sort chain_sort by simp
  have l: "0 < length (scheduled @ appended)" unfolding v by simp
  have h: "hasDependentDrawTargets ((scheduled @ appended) ! 0)" unfolding v by simp
  then have "\<exists>d<length chainTargets.
               dependsOn textPrefix chainHeap chainTargets d
                 (originalIndex ((scheduled @ appended) ! 0))"
    using f[rule_format, OF l] by simp
  then show ?thesis using chain_acyclic sort l h by blast
qed

text \<open>
  The claim C6 as it is written fails where two draw targets depend on each other: the
  entry of index 0 has the flag false, and the draw target at index 1 depends on the one at
  index 0.
\<close>

theorem flag_false_with_dependent_counterexample:
  "SortDrawTargets textPrefix cycleHeap cycleTargets
     = Some ([\<lparr>originalIndex = 2, drawTarget = Some 2, hasDependentDrawTargets = True\<rparr>,
              \<lparr>originalIndex = 0, drawTarget = Some 0, hasDependentDrawTargets = False\<rparr>,
              \<lparr>originalIndex = 1, drawTarget = Some 1, hasDependentDrawTargets = False\<rparr>], [])
   \<and> dependsOn textPrefix cycleHeap cycleTargets 1 0"
proof -
  have "dependsOn textPrefix cycleHeap cycleTargets 1 0" by code_simp
  then show ?thesis using cycle_sort by simp
qed

section \<open>Properties of Sync and Execute\<close>

text \<open>The render passes, rebuilt or refreshed.\<close>

lemma GetSortedDrawTargets_returns:
  "\<exists>entries. GetSortedDrawTargets HP heap dts = Some entries"
  using sort_structure[of HP heap dts] by (auto simp: GetSortedDrawTargets_def)

lemma addRenderPass_lengths:
  "length (snd st) = length (fst st) \<Longrightarrow>
   length (snd (addRenderPass heap e st)) = length (fst (addRenderPass heap e st))"
  by (cases st) (auto simp: addRenderPass_def split: option.splits)

lemma fold_addRenderPass_lengths:
  "length (snd st) = length (fst st) \<Longrightarrow>
   length (snd (fold (addRenderPass heap) es st)) = length (fst (fold (addRenderPass heap) es st))"
  by (induction es arbitrary: st) (simp_all add: addRenderPass_lengths)

lemma rebuildRenderPasses_lengths:
  "rebuildRenderPasses heap es = (infos, passes) \<Longrightarrow> length passes = length infos"
  using fold_addRenderPass_lengths[of "([], [])" heap es]
  by (simp add: rebuildRenderPasses_def)

lemma refreshRenderPass_simp:
  "refreshRenderPass heap i (infos, passes) =
     (infos[i := refreshedInfo heap (infos ! i)],
      passes[i := refreshedPass heap (infos ! i) (passes ! i)])"
proof (cases "version (infos ! i) = GetVersion (heap (target (infos ! i)))")
  case True
  then have "refreshedInfo heap (infos ! i) = infos ! i"
    unfolding refreshedInfo_def by (cases "infos ! i") simp
  then show ?thesis using True
    by (simp add: refreshRenderPass_def refreshedPass_def Let_def)
next
  case False
  then show ?thesis
    by (simp add: refreshRenderPass_def refreshedInfo_def refreshedPass_def Let_def)
qed

lemma refresh_fold:
  assumes "length passes = length infos" "m \<le> length infos"
  shows "\<exists>infos' passes'.
           fold (refreshRenderPass heap) [0..<m] (infos, passes) = (infos', passes')
           \<and> length infos' = length infos \<and> length passes' = length infos
           \<and> (\<forall>j<length infos. infos' ! j
                 = (if j < m then refreshedInfo heap (infos ! j) else infos ! j))
           \<and> (\<forall>j<length infos. passes' ! j
                 = (if j < m then refreshedPass heap (infos ! j) (passes ! j) else passes ! j))"
  using assms(2)
proof (induction m)
  case 0
  then show ?case using assms(1) by simp
next
  case (Suc m)
  then obtain infos' passes' where
    f: "fold (refreshRenderPass heap) [0..<m] (infos, passes) = (infos', passes')"
    and l: "length infos' = length infos" "length passes' = length infos"
    and i: "\<forall>j<length infos. infos' ! j
                 = (if j < m then refreshedInfo heap (infos ! j) else infos ! j)"
    and p: "\<forall>j<length infos. passes' ! j
                 = (if j < m then refreshedPass heap (infos ! j) (passes ! j) else passes ! j)"
    by auto
  have m: "m < length infos" using Suc.prems by simp
  have "fold (refreshRenderPass heap) [0..<Suc m] (infos, passes)
          = (infos'[m := refreshedInfo heap (infos' ! m)],
             passes'[m := refreshedPass heap (infos' ! m) (passes' ! m)])"
    using f by (simp add: refreshRenderPass_simp)
  moreover have "infos' ! m = infos ! m" "passes' ! m = passes ! m"
    using i p m by simp_all
  ultimately show ?case using l i p m
    by (auto simp: nth_list_update less_Suc_eq)
qed

lemma refreshRenderPasses_spec:
  assumes "length passes = length infos"
  shows "\<exists>infos' passes'.
           refreshRenderPasses heap (infos, passes) = (infos', passes')
           \<and> length infos' = length infos \<and> length passes' = length infos
           \<and> (\<forall>j<length infos. infos' ! j = refreshedInfo heap (infos ! j))
           \<and> (\<forall>j<length infos. passes' ! j = refreshedPass heap (infos ! j) (passes ! j))"
  using refresh_fold[OF assms order_refl, of heap]
  by (auto simp: refreshRenderPasses_def)

lemma sameBindings_refl: "sameBindings st st"
  by (simp add: sameBindings_def)

lemma sameBindings_trans:
  "sameBindings st st' \<Longrightarrow> sameBindings st' st'' \<Longrightarrow> sameBindings st st''"
  by (simp add: sameBindings_def)

lemma updateRenderPass_sameBindings:
  assumes "updateRenderPass scene task lc i st = Inr st'"
  shows "sameBindings st st'"
proof -
  obtain infos passes where st: "st = (infos, passes)" by (cases st)
  from assms obtain info' pass' where
    st': "st' = (infos[i := info'], passes[i := pass'])"
    and i: "target info' = target (infos ! i)" "version info' = version (infos ! i)"
    and p: "GetDrawTarget pass' = GetDrawTarget (passes ! i)"
           "drawTargetRenderPassState pass' = drawTargetRenderPassState (passes ! i)"
           "HasDependentDrawTargets pass' = HasDependentDrawTargets (passes ! i)"
    unfolding st updateRenderPass_def Let_def
    by (auto split: option.splits)
  show ?thesis
    unfolding sameBindings_def st st' fst_conv snd_conv
    using i p by (simp add: map_update_same)
qed

lemma updateRenderPasses_sameBindings:
  "updateRenderPasses scene task lc is st = (r, st') \<Longrightarrow> sameBindings st st'"
proof (induction "is" arbitrary: st)
  case Nil
  then show ?case by (simp add: sameBindings_refl)
next
  case (Cons i "is")
  show ?case
  proof (cases "updateRenderPass scene task lc i st")
    case (Inl cameraId)
    then show ?thesis using Cons.prems by (simp add: sameBindings_refl)
  next
    case (Inr st1)
    then have "updateRenderPasses scene task lc is st1 = (r, st')"
      using Cons.prems by simp
    then have "sameBindings st1 st'" by (rule Cons.IH)
    then show ?thesis
      using updateRenderPass_sameBindings[OF Inr] sameBindings_trans by blast
  qed
qed

lemma sameBindings_lengths:
  assumes "sameBindings st st'"
  shows "length (fst st') = length (fst st)" "length (snd st') = length (snd st)"
proof -
  have "length (map target (fst st')) = length (map target (fst st))"
    using assms by (simp add: sameBindings_def)
  then show "length (fst st') = length (fst st)" by simp
  have "length (map GetDrawTarget (snd st')) = length (map GetDrawTarget (snd st))"
    using assms by (simp add: sameBindings_def)
  then show "length (snd st') = length (snd st)" by simp
qed

lemma syncDrawTargetSet_returns:
  "\<exists>task'. syncDrawTargetSet HP scene task = Some task'"
proof (cases "m_currentDrawTargetSetVersion task \<noteq> GetStateVersion scene")
  case True
  obtain entries where
    "GetSortedDrawTargets HP (drawTargetHeap scene) (GetDrawTargets scene) = Some entries"
    using GetSortedDrawTargets_returns by blast
  then show ?thesis using True
    by (simp add: syncDrawTargetSet_def Let_def split: prod.splits)
next
  case False
  then show ?thesis
    by (simp add: syncDrawTargetSet_def Let_def split: prod.splits)
qed

text \<open>The shape of every result of \<open>Sync\<close> that got past the task parameters.\<close>

lemma Sync_after_params:
  assumes p: "syncParams scene task dirtyBits = Some task1"
    and d: "syncDrawTargetSet HP scene (syncRenderTags scene task1 dirtyBits) = Some task2"
  shows "\<exists>exit task'.
           Sync HP scene task ctx dirtyBits
             = Some (exit, task',
                     ctx(drawTargetRenderPassesToken \<mapsto> DrawTargetRenderPassesPtr),
                     if exit = Completed then Clean else dirtyBits)
           \<and> exit \<noteq> ParamsNotFetched
           \<and> m_currentDrawTargetSetVersion task' = m_currentDrawTargetSetVersion task2
           \<and> sameBindings (m_renderPassesInfo task2, m_renderPasses task2)
                            (m_renderPassesInfo task', m_renderPasses task')"
proof -
  define ctx' where "ctx' = ctx(drawTargetRenderPassesToken \<mapsto> DrawTargetRenderPassesPtr)"
  obtain r infos passes where
    u: "updateRenderPasses scene task2 (GetTaskContextData ctx' lightingContextToken)
          [0..<length (m_renderPassesInfo task2)]
          (m_renderPassesInfo task2, m_renderPasses task2) = (r, infos, passes)"
    by (metis prod_cases3)
  have sb: "sameBindings (m_renderPassesInfo task2, m_renderPasses task2) (infos, passes)"
    using updateRenderPasses_sameBindings[OF u] .
  show ?thesis
  proof (cases r)
    case None
    then show ?thesis using p d u sb
      by (simp add: Sync_def Let_def ctx'_def[symmetric])
  next
    case (Some cameraId)
    then show ?thesis using p d u sb
      by (simp add: Sync_def Let_def ctx'_def[symmetric])
  qed
qed

lemma Sync_params_failed:
  assumes "syncParams scene task dirtyBits = None"
  shows "Sync HP scene task ctx dirtyBits = Some (ParamsNotFetched, task, ctx, dirtyBits)"
  using assms by (simp add: Sync_def)

lemma syncParams_None:
  "(syncParams scene task dirtyBits = None)
     = (dirtyBits AND DirtyParams \<noteq> 0 \<and> GetTaskParams scene = None)"
  by (simp add: syncParams_def split: option.splits)

text \<open>The loop of \<open>Execute\<close>.\<close>

lemma executeRenderPass_eq:
  "executeRenderPass task i calls = calls @ entryCalls task i"
  by (simp add: executeRenderPass_def entryCalls_def Let_def split: option.splits)

lemma fold_executeRenderPass:
  "fold (executeRenderPass task) is calls = calls @ concat (map (entryCalls task) is)"
  by (induction "is" arbitrary: calls) (simp_all add: executeRenderPass_eq)

text \<open>
  Claim C8, as the code has it. The aspect ratio that \<open>Sync\<close> passes on is 1 when the
  height of the resolution is zero, so nothing is divided by zero; for a height that is
  not zero it is the quotient of two integers, truncated: for a draw target of 1920 by
  1080 texels it is 1, and not 1920 / 1080.
\<close>

theorem conform_aspect_is_truncated:
  "conformAspect (w, 0) = 1
   \<and> conformAspect (1920, 1080) = 1
   \<and> conformAspect (1920, 1080) \<noteq> 1920 / 1080
   \<and> map_option
        (\<lambda>(exit, task, ctx, dirtyBits).
           map (\<lambda>info. last (butlast (renderPassState info))) (m_renderPassesInfo task))
        (Sync textPrefix wideScene HdxDrawTargetTask_new Map.empty DirtyParams)
      = Some [SetCameraFramingState (Matrix 0)
                (MatrixProduct (CameraUtilConformedWindow (Matrix 1) 0 1) yflip)
                (0, 0, 1920, 1080) []]"
proof -
  have a: "conformAspect (w, 0) = 1" by (simp add: conformAspect_def)
  have b: "conformAspect (1920, 1080) = 1" by code_simp
  have c: "map_option
        (\<lambda>(exit, task, ctx, dirtyBits).
           map (\<lambda>info. last (butlast (renderPassState info))) (m_renderPassesInfo task))
        (Sync textPrefix wideScene HdxDrawTargetTask_new Map.empty DirtyParams)
      = Some [SetCameraFramingState (Matrix 0)
                (MatrixProduct (CameraUtilConformedWindow (Matrix 1) 0 1) yflip)
                (0, 0, 1920, 1080) []]"
    by code_simp
  show ?thesis using a b c by simp
qed

lemma syncParams_keeps:
  assumes "syncParams scene task dirtyBits = Some task1"
  shows "m_renderPassesInfo task1 = m_renderPassesInfo task"
    and "m_renderPasses task1 = m_renderPasses task"
    and "m_currentDrawTargetSetVersion task1 = m_currentDrawTargetSetVersion task"
  using assms
  by (auto simp: syncParams_def setParams_def split: if_splits option.splits)

lemma syncRenderTags_keeps:
  "m_renderPassesInfo (syncRenderTags scene task dirtyBits) = m_renderPassesInfo task"
  "m_renderPasses (syncRenderTags scene task dirtyBits) = m_renderPasses task"
  "m_currentDrawTargetSetVersion (syncRenderTags scene task dirtyBits)
     = m_currentDrawTargetSetVersion task"
  by (simp_all add: syncRenderTags_def)

lemma syncDrawTargetSet_fresh:
  assumes "m_currentDrawTargetSetVersion task = GetStateVersion scene"
    and "length (m_renderPasses task) = length (m_renderPassesInfo task)"
  shows "\<exists>task'. syncDrawTargetSet HP scene task = Some task'
           \<and> m_currentDrawTargetSetVersion task' = m_currentDrawTargetSetVersion task
           \<and> length (m_renderPassesInfo task') = length (m_renderPassesInfo task)
           \<and> length (m_renderPasses task') = length (m_renderPassesInfo task)
           \<and> (\<forall>j<length (m_renderPassesInfo task).
                 m_renderPassesInfo task' ! j
                   = refreshedInfo (drawTargetHeap scene) (m_renderPassesInfo task ! j))
           \<and> (\<forall>j<length (m_renderPassesInfo task).
                 m_renderPasses task' ! j
                   = refreshedPass (drawTargetHeap scene) (m_renderPassesInfo task ! j)
                       (m_renderPasses task ! j))"
proof -
  from refreshRenderPasses_spec[OF assms(2), of "drawTargetHeap scene"]
  obtain infos' passes' where
    r: "refreshRenderPasses (drawTargetHeap scene) (m_renderPassesInfo task, m_renderPasses task)
          = (infos', passes')"
    and l: "length infos' = length (m_renderPassesInfo task)"
           "length passes' = length (m_renderPassesInfo task)"
    and i: "\<forall>j<length (m_renderPassesInfo task).
              infos' ! j = refreshedInfo (drawTargetHeap scene) (m_renderPassesInfo task ! j)"
    and p: "\<forall>j<length (m_renderPassesInfo task).
              passes' ! j = refreshedPass (drawTargetHeap scene) (m_renderPassesInfo task ! j)
                              (m_renderPasses task ! j)"
    by blast
  have "syncDrawTargetSet HP scene task
          = Some (task\<lparr>m_renderPassesInfo := infos', m_renderPasses := passes'\<rparr>)"
    using assms(1) r by (simp add: syncDrawTargetSet_def)
  then show ?thesis using l i p by simp
qed

lemma nth_of_map_eq:
  "map f xs = map f ys \<Longrightarrow> j < length ys \<Longrightarrow> f (xs ! j) = f (ys ! j)"
  by (metis length_map nth_map)

lemma new_task_wellFormed: "wellFormed HdxDrawTargetTask_new"
  by (simp add: wellFormed_def HdxDrawTargetTask_new_def)

lemma syncDrawTargetSet_wellFormed:
  assumes "wellFormed task" and "syncDrawTargetSet HP scene task = Some task'"
  shows "wellFormed task'"
proof (cases "m_currentDrawTargetSetVersion task = GetStateVersion scene")
  case True
  from syncDrawTargetSet_fresh[OF True assms(1)[unfolded wellFormed_def], of HP]
  show ?thesis using assms(2) by (auto simp: wellFormed_def)
next
  case False
  then obtain entries infos passes where
    "rebuildRenderPasses (drawTargetHeap scene) entries = (infos, passes)"
    and "task' = task\<lparr>m_renderPassesInfo := infos, m_renderPasses := passes,
                       m_currentDrawTargetSetVersion := GetStateVersion scene\<rparr>"
    using assms(2)
    by (auto simp: syncDrawTargetSet_def Let_def split: option.splits prod.splits)
  then show ?thesis
    using rebuildRenderPasses_lengths by (simp add: wellFormed_def)
qed

text \<open>\<open>Sync\<close> always returns, and it keeps the two vectors of the task at one length.\<close>

lemma Sync_wellFormed:
  assumes "wellFormed task"
  shows "\<exists>exit task' ctx' dirtyBits'.
           Sync HP scene task ctx dirtyBits = Some (exit, task', ctx', dirtyBits')
           \<and> wellFormed task'"
proof (cases "syncParams scene task dirtyBits")
  case None
  then show ?thesis using Sync_params_failed[OF None, of HP ctx] assms by simp
next
  case (Some task1)
  have w1: "wellFormed (syncRenderTags scene task1 dirtyBits)"
    using assms syncParams_keeps[OF Some]
    by (simp add: wellFormed_def syncRenderTags_keeps)
  obtain task2 where
    d: "syncDrawTargetSet HP scene (syncRenderTags scene task1 dirtyBits) = Some task2"
    using syncDrawTargetSet_returns by blast
  have w2: "wellFormed task2" using syncDrawTargetSet_wellFormed[OF w1 d] .
  from Sync_after_params[OF Some d, of ctx]
  obtain exit task' ctx' dirtyBits' where
    s: "Sync HP scene task ctx dirtyBits = Some (exit, task', ctx', dirtyBits')"
    and sb: "sameBindings (m_renderPassesInfo task2, m_renderPasses task2)
                          (m_renderPassesInfo task', m_renderPasses task')"
    by blast
  have "wellFormed task'"
    using sameBindings_lengths[OF sb] w2 by (simp add: wellFormed_def)
  then show ?thesis using s by blast
qed

text \<open>
  Claim C7. When \<open>Sync\<close> gets past the task parameters, the version of the draw target set
  is the cached one, and the entry at position \<open>k\<close> is the only one whose cached version is
  not the version of its draw target, then \<open>Sync\<close> gives the render pass at \<open>k\<close> the Glf
  draw target of its draw target and caches the new version at \<open>k\<close>. The number of the
  entries, their draw targets in order, the flags, the cached version of the set, and the
  cached version and the Glf draw target of every other entry stay as they are.
\<close>

theorem fresh_sync_refreshes_only_changed_entry:
  assumes wf: "length (m_renderPasses task) = length (m_renderPassesInfo task)"
    and params: "dirtyBits AND DirtyParams = 0 \<or> GetTaskParams scene \<noteq> None"
    and fresh: "m_currentDrawTargetSetVersion task = GetStateVersion scene"
    and k: "k < length (m_renderPassesInfo task)"
    and changed: "version (m_renderPassesInfo task ! k)
                    \<noteq> GetVersion (drawTargetHeap scene (target (m_renderPassesInfo task ! k)))"
    and others: "\<forall>j<length (m_renderPassesInfo task). j \<noteq> k \<longrightarrow>
                   version (m_renderPassesInfo task ! j)
                     = GetVersion (drawTargetHeap scene (target (m_renderPassesInfo task ! j)))"
  shows "\<exists>exit task' ctx' dirtyBits'.
           Sync HP scene task ctx dirtyBits = Some (exit, task', ctx', dirtyBits')
           \<and> length (m_renderPassesInfo task') = length (m_renderPassesInfo task)
           \<and> length (m_renderPasses task') = length (m_renderPasses task)
           \<and> map target (m_renderPassesInfo task') = map target (m_renderPassesInfo task)
           \<and> map HasDependentDrawTargets (m_renderPasses task')
               = map HasDependentDrawTargets (m_renderPasses task)
           \<and> m_currentDrawTargetSetVersion task' = m_currentDrawTargetSetVersion task
           \<and> version (m_renderPassesInfo task' ! k)
               = GetVersion (drawTargetHeap scene (target (m_renderPassesInfo task ! k)))
           \<and> GetDrawTarget (m_renderPasses task' ! k)
               = GetGlfDrawTarget (drawTargetHeap scene (target (m_renderPassesInfo task ! k)))
           \<and> (\<forall>j<length (m_renderPassesInfo task). j \<noteq> k \<longrightarrow>
                 version (m_renderPassesInfo task' ! j) = version (m_renderPassesInfo task ! j)
                 \<and> GetDrawTarget (m_renderPasses task' ! j)
                     = GetDrawTarget (m_renderPasses task ! j))"
proof -
  define n where "n = length (m_renderPassesInfo task)"
  define heap where "heap = drawTargetHeap scene"
  obtain task1 where p: "syncParams scene task dirtyBits = Some task1"
    using params by (cases "syncParams scene task dirtyBits") (auto simp: syncParams_None)
  define task1' where "task1' = syncRenderTags scene task1 dirtyBits"
  have k1: "m_renderPassesInfo task1' = m_renderPassesInfo task"
    "m_renderPasses task1' = m_renderPasses task"
    "m_currentDrawTargetSetVersion task1' = m_currentDrawTargetSetVersion task"
    unfolding task1'_def by (simp_all add: syncRenderTags_keeps syncParams_keeps[OF p])
  have "m_currentDrawTargetSetVersion task1' = GetStateVersion scene"
    "length (m_renderPasses task1') = length (m_renderPassesInfo task1')"
    using k1 fresh wf by simp_all
  from syncDrawTargetSet_fresh[OF this, of HP]
  obtain task2 where d: "syncDrawTargetSet HP scene task1' = Some task2"
    and v2: "m_currentDrawTargetSetVersion task2 = m_currentDrawTargetSetVersion task"
    and l2: "length (m_renderPassesInfo task2) = n" "length (m_renderPasses task2) = n"
    and i2: "\<forall>j<n. m_renderPassesInfo task2 ! j = refreshedInfo heap (m_renderPassesInfo task ! j)"
    and p2: "\<forall>j<n. m_renderPasses task2 ! j
                     = refreshedPass heap (m_renderPassesInfo task ! j) (m_renderPasses task ! j)"
    unfolding k1 n_def heap_def by blast
  from Sync_after_params[OF p d[unfolded task1'_def], of ctx]
  obtain exit task' ctx' dirtyBits' where
    s: "Sync HP scene task ctx dirtyBits = Some (exit, task', ctx', dirtyBits')"
    and v: "m_currentDrawTargetSetVersion task' = m_currentDrawTargetSetVersion task2"
    and sb: "sameBindings (m_renderPassesInfo task2, m_renderPasses task2)
                          (m_renderPassesInfo task', m_renderPasses task')"
    by blast
  have l: "length (m_renderPassesInfo task') = n" "length (m_renderPasses task') = n"
    using sameBindings_lengths[OF sb] l2 by simp_all
  have mt: "map target (m_renderPassesInfo task') = map target (m_renderPassesInfo task2)"
    and mv: "map version (m_renderPassesInfo task') = map version (m_renderPassesInfo task2)"
    and mg: "map GetDrawTarget (m_renderPasses task') = map GetDrawTarget (m_renderPasses task2)"
    and mh: "map HasDependentDrawTargets (m_renderPasses task')
               = map HasDependentDrawTargets (m_renderPasses task2)"
    using sb by (simp_all add: sameBindings_def)
  have t2: "map target (m_renderPassesInfo task2) = map target (m_renderPassesInfo task)"
    by (rule nth_equalityI) (simp_all add: l2 n_def[symmetric] i2 refreshedInfo_def)
  have h2: "map HasDependentDrawTargets (m_renderPasses task2)
              = map HasDependentDrawTargets (m_renderPasses task)"
    by (rule nth_equalityI)
       (simp_all add: l2 wf n_def[symmetric] p2 refreshedPass_def)
  have ver: "version (m_renderPassesInfo task' ! j)
               = GetVersion (heap (target (m_renderPassesInfo task ! j)))"
    and glf: "GetDrawTarget (m_renderPasses task' ! j)
               = GetDrawTarget (refreshedPass heap (m_renderPassesInfo task ! j)
                                  (m_renderPasses task ! j))"
    if "j < n" for j
  proof -
    have "version (m_renderPassesInfo task' ! j) = version (m_renderPassesInfo task2 ! j)"
      using nth_of_map_eq[OF mv] that l2 by simp
    then show "version (m_renderPassesInfo task' ! j)
               = GetVersion (heap (target (m_renderPassesInfo task ! j)))"
      using i2 that by (simp add: refreshedInfo_def)
    have "GetDrawTarget (m_renderPasses task' ! j) = GetDrawTarget (m_renderPasses task2 ! j)"
      using nth_of_map_eq[OF mg] that l2 by simp
    then show "GetDrawTarget (m_renderPasses task' ! j)
               = GetDrawTarget (refreshedPass heap (m_renderPassesInfo task ! j)
                                  (m_renderPasses task ! j))"
      using p2 that by simp
  qed
  have kk: "k < n" using k by (simp add: n_def)
  have c7: "version (m_renderPassesInfo task' ! k)
               = GetVersion (heap (target (m_renderPassesInfo task ! k)))"
    using ver[OF kk] .
  have c8: "GetDrawTarget (m_renderPasses task' ! k)
               = GetGlfDrawTarget (heap (target (m_renderPassesInfo task ! k)))"
    using glf[OF kk] changed by (simp add: refreshedPass_def heap_def)
  have c9: "\<forall>j<n. j \<noteq> k \<longrightarrow>
                 version (m_renderPassesInfo task' ! j) = version (m_renderPassesInfo task ! j)
                 \<and> GetDrawTarget (m_renderPasses task' ! j)
                     = GetDrawTarget (m_renderPasses task ! j)"
  proof (intro allI impI)
    fix j assume j: "j < n" "j \<noteq> k"
    then have same: "version (m_renderPassesInfo task ! j)
                     = GetVersion (heap (target (m_renderPassesInfo task ! j)))"
      using others by (simp add: n_def heap_def)
    show "version (m_renderPassesInfo task' ! j) = version (m_renderPassesInfo task ! j)
                 \<and> GetDrawTarget (m_renderPasses task' ! j)
                     = GetDrawTarget (m_renderPasses task ! j)"
      using ver[OF j(1)] glf[OF j(1)] same by (simp add: refreshedPass_def)
  qed
  show ?thesis
    using s l wf mt t2 mh h2 v v2 c7 c8 c9 unfolding n_def heap_def
    by (intro exI[of _ exit] exI[of _ task'] exI[of _ ctx'] exI[of _ dirtyBits']) simp
qed

text \<open>
  At the task that \<open>Sync\<close> left for the chain, after the version of the draw target of the
  entry at position 1 went from 1 to 2: the entry at position 1 is refreshed, the entry at
  position 0 is as it was.
\<close>

theorem fresh_sync_refreshes_only_changed_entry_witness:
  "map version (m_renderPassesInfo chainTask) = [1, 1]
   \<and> map GetDrawTarget (m_renderPasses chainTask) = [Some 10, Some 11]
   \<and> GetVersion (drawTargetHeap advancedScene 1) = 2
   \<and> (\<exists>exit task' ctx' dirtyBits'.
         Sync textPrefix advancedScene chainTask Map.empty Clean
           = Some (exit, task', ctx', dirtyBits')
         \<and> length (m_renderPassesInfo task') = 2
         \<and> version (m_renderPassesInfo task' ! 1) = 2
         \<and> GetDrawTarget (m_renderPasses task' ! 1) = Some 21
         \<and> version (m_renderPassesInfo task' ! 0) = 1
         \<and> GetDrawTarget (m_renderPasses task' ! 0) = Some 10)"
proof -
  have vs: "map version (m_renderPassesInfo chainTask) = [1, 1]" by code_simp
  have gs: "map GetDrawTarget (m_renderPasses chainTask) = [Some 10, Some 11]" by code_simp
  have ts: "map target (m_renderPassesInfo chainTask) = [0, 1]" by code_simp
  have l: "length (m_renderPassesInfo chainTask) = 2"
    using arg_cong[OF vs, of length] by simp
  have v: "version (m_renderPassesInfo chainTask ! 0) = 1"
          "version (m_renderPassesInfo chainTask ! 1) = 1"
    using nth_of_map_eq[of version "m_renderPassesInfo chainTask" "m_renderPassesInfo chainTask"]
      arg_cong[OF vs, of "\<lambda>xs. xs ! 0"] arg_cong[OF vs, of "\<lambda>xs. xs ! 1"] l
    by simp_all
  have t: "target (m_renderPassesInfo chainTask ! 0) = 0"
          "target (m_renderPassesInfo chainTask ! 1) = 1"
    using arg_cong[OF ts, of "\<lambda>xs. xs ! 0"] arg_cong[OF ts, of "\<lambda>xs. xs ! 1"] l
    by simp_all
  have g: "GetDrawTarget (m_renderPasses chainTask ! 0) = Some 10"
    using arg_cong[OF gs, of "\<lambda>xs. xs ! 0"] arg_cong[OF gs, of length] by simp
  have h0: "GetVersion (drawTargetHeap advancedScene 0) = 1" by code_simp
  have h1: "GetVersion (drawTargetHeap advancedScene 1) = 2" by code_simp
  have g1: "GetGlfDrawTarget (drawTargetHeap advancedScene 1) = Some 21" by code_simp
  have wf: "length (m_renderPasses chainTask) = length (m_renderPassesInfo chainTask)"
    using arg_cong[OF gs, of length] l by simp
  have params: "Clean AND DirtyParams = 0 \<or> GetTaskParams advancedScene \<noteq> None"
    by (simp add: Clean_def)
  have fresh: "m_currentDrawTargetSetVersion chainTask = GetStateVersion advancedScene"
    by code_simp
  have k: "1 < length (m_renderPassesInfo chainTask)" using l by simp
  have changed: "version (m_renderPassesInfo chainTask ! 1)
      \<noteq> GetVersion (drawTargetHeap advancedScene (target (m_renderPassesInfo chainTask ! 1)))"
    using v t h1 by simp
  have others: "\<forall>j<length (m_renderPassesInfo chainTask). j \<noteq> 1 \<longrightarrow>
      version (m_renderPassesInfo chainTask ! j)
        = GetVersion (drawTargetHeap advancedScene (target (m_renderPassesInfo chainTask ! j)))"
    using v t h0 l by (auto simp: less_Suc_eq numeral_2_eq_2)
  from fresh_sync_refreshes_only_changed_entry[OF wf params fresh k changed others,
      of textPrefix Map.empty]
  obtain exit task' ctx' dirtyBits' where
    s: "Sync textPrefix advancedScene chainTask Map.empty Clean
          = Some (exit, task', ctx', dirtyBits')"
    and l': "length (m_renderPassesInfo task') = length (m_renderPassesInfo chainTask)"
    and v1: "version (m_renderPassesInfo task' ! 1)
               = GetVersion (drawTargetHeap advancedScene
                               (target (m_renderPassesInfo chainTask ! 1)))"
    and g1': "GetDrawTarget (m_renderPasses task' ! 1)
               = GetGlfDrawTarget (drawTargetHeap advancedScene
                                     (target (m_renderPassesInfo chainTask ! 1)))"
    and o: "\<forall>j<length (m_renderPassesInfo chainTask). j \<noteq> 1 \<longrightarrow>
                 version (m_renderPassesInfo task' ! j)
                   = version (m_renderPassesInfo chainTask ! j)
                 \<and> GetDrawTarget (m_renderPasses task' ! j)
                     = GetDrawTarget (m_renderPasses chainTask ! j)"
    by blast
  have o0: "version (m_renderPassesInfo task' ! 0) = 1
            \<and> GetDrawTarget (m_renderPasses task' ! 0) = Some 10"
    using o[rule_format, of 0] l v g by simp
  show ?thesis
    using vs gs h1 s l' l v1 g1' t g1 o0 by simp
qed

lemma updateRenderPasses_camera:
  "updateRenderPasses scene task lc is st = (Some cameraId, st') \<Longrightarrow>
   GetSprim scene cameraId = None"
proof (induction "is" arbitrary: st)
  case Nil
  then show ?case by simp
next
  case (Cons i "is")
  show ?case
  proof (cases "updateRenderPass scene task lc i st")
    case (Inl c)
    then have "c = cameraId" using Cons.prems by simp
    moreover have "GetSprim scene c = None"
      using Inl by (cases st) (auto simp: updateRenderPass_def Let_def split: option.splits)
    ultimately show ?thesis by simp
  next
    case (Inr st1)
    then show ?thesis using Cons by simp
  qed
qed

text \<open>
  Claim C9, as the code has it. \<open>Sync\<close> always returns. It sets the dirty bits to \<open>Clean\<close>
  when it runs to its end; on its two early returns, after the task parameters could not
  be fetched and after a camera of a render pass was not found, it leaves the dirty bits
  as they were.
\<close>

theorem sync_dirty_bits:
  "\<exists>exit task' ctx'.
     Sync HP scene task ctx dirtyBits
       = Some (exit, task', ctx', if exit = Completed then Clean else dirtyBits)
     \<and> (exit = ParamsNotFetched)
         = (dirtyBits AND DirtyParams \<noteq> 0 \<and> GetTaskParams scene = None)
     \<and> (case exit of InvalidCamera cameraId \<Rightarrow> GetSprim scene cameraId = None | _ \<Rightarrow> True)"
proof (cases "syncParams scene task dirtyBits")
  case None
  then show ?thesis
    using Sync_params_failed[OF None, of HP ctx] syncParams_None[of scene task dirtyBits]
    by simp
next
  case (Some task1)
  obtain task2 where
    d: "syncDrawTargetSet HP scene (syncRenderTags scene task1 dirtyBits) = Some task2"
    using syncDrawTargetSet_returns by blast
  define ctx' where "ctx' = ctx(drawTargetRenderPassesToken \<mapsto> DrawTargetRenderPassesPtr)"
  obtain r infos passes where
    u: "updateRenderPasses scene task2 (GetTaskContextData ctx' lightingContextToken)
          [0..<length (m_renderPassesInfo task2)]
          (m_renderPassesInfo task2, m_renderPasses task2) = (r, infos, passes)"
    by (metis prod_cases3)
  have np: "\<not> (dirtyBits AND DirtyParams \<noteq> 0 \<and> GetTaskParams scene = None)"
    using Some syncParams_None[of scene task dirtyBits] by simp
  show ?thesis
  proof (cases r)
    case None
    then show ?thesis using Some d u np
      by (simp add: Sync_def Let_def ctx'_def[symmetric])
  next
    case (Some cameraId)
    then have "GetSprim scene cameraId = None"
      using updateRenderPasses_camera u by blast
    then show ?thesis using Some \<open>syncParams scene task dirtyBits = Some task1\<close> d u np
      by (simp add: Sync_def Let_def ctx'_def[symmetric])
  qed
qed

text \<open>
  The claim C9 as it is written fails when a camera is missing: \<open>Sync\<close> returns with the
  dirty bits it was given, which are not \<open>Clean\<close>.
\<close>

theorem dirty_bits_kept_on_early_return_counterexample:
  "map_option (\<lambda>(exit, task, ctx, dirtyBits). (exit, dirtyBits))
     (Sync textPrefix cameralessScene HdxDrawTargetTask_new Map.empty DirtyParams)
   = Some (InvalidCamera ''/cam'', DirtyParams)
   \<and> DirtyParams \<noteq> Clean"
proof -
  have "map_option (\<lambda>(exit, task, ctx, dirtyBits). (exit, dirtyBits))
     (Sync textPrefix cameralessScene HdxDrawTargetTask_new Map.empty DirtyParams)
   = Some (InvalidCamera ''/cam'', DirtyParams)"
    by code_simp
  moreover have "DirtyParams \<noteq> Clean" by (simp add: DirtyParams_def Clean_def)
  ultimately show ?thesis by simp
qed

text \<open>
  Claim C10. When the dirty bit of the parameters is set and the task parameters cannot be
  fetched, \<open>Sync\<close> returns at once: the task with its render passes and its cached version
  of the draw target set, the task context and the dirty bits are what they were, and the
  dirty bits are not \<open>Clean\<close>.
\<close>

theorem sync_returns_when_params_not_fetched:
  assumes "dirtyBits AND DirtyParams \<noteq> 0" and "GetTaskParams scene = None"
  shows "Sync HP scene task ctx dirtyBits = Some (ParamsNotFetched, task, ctx, dirtyBits)
         \<and> dirtyBits \<noteq> Clean"
proof -
  have "syncParams scene task dirtyBits = None"
    using assms by (simp add: syncParams_None)
  then have "Sync HP scene task ctx dirtyBits = Some (ParamsNotFetched, task, ctx, dirtyBits)"
    by (rule Sync_params_failed)
  moreover have "dirtyBits \<noteq> Clean" using assms(1) by (auto simp: Clean_def)
  ultimately show ?thesis by simp
qed

text \<open>
  At a new task and the chain, whose version of the draw target set is not the cached one:
  nothing is rebuilt.
\<close>

theorem sync_returns_when_params_not_fetched_witness:
  "DirtyParams AND DirtyParams \<noteq> 0
   \<and> GetTaskParams paramlessScene = None
   \<and> m_currentDrawTargetSetVersion HdxDrawTargetTask_new \<noteq> GetStateVersion paramlessScene
   \<and> Sync textPrefix paramlessScene HdxDrawTargetTask_new Map.empty DirtyParams
       = Some (ParamsNotFetched, HdxDrawTargetTask_new, Map.empty, DirtyParams)"
proof -
  have a: "DirtyParams AND DirtyParams \<noteq> 0" by (simp add: DirtyParams_def)
  have b: "GetTaskParams paramlessScene = None" by (simp add: paramlessScene_def)
  have c: "m_currentDrawTargetSetVersion HdxDrawTargetTask_new \<noteq> GetStateVersion paramlessScene"
    by (simp add: HdxDrawTargetTask_new_def paramlessScene_def chainScene_def exampleScene_def)
  show ?thesis
    using sync_returns_when_params_not_fetched[OF a b, of textPrefix HdxDrawTargetTask_new
        Map.empty] a b c
    by simp
qed

section \<open>Sync and Execute together\<close>

text \<open>
  The rebuild of the render passes from the sorted entries, the places of a draw target
  and of one that depends on it in the sorted entries, and the calls of \<open>Execute\<close> around
  two of its entries.
\<close>

lemma keptTargets_append:
  "keptTargets heap (xs @ ys) = keptTargets heap xs @ keptTargets heap ys"
  by (simp add: keptTargets_def)

lemma keptTargets_single:
  "drawTarget e = Some a \<Longrightarrow> IsEnabled (heap a) \<Longrightarrow>
   keptTargets heap [e] = [(a, hasDependentDrawTargets e)]"
  by (simp add: keptTargets_def)

lemma addRenderPass_eq:
  "addRenderPass heap e (infos, passes) =
     (infos @ map (infoOf heap) (keptTargets heap [e]),
      passes @ map (passOf heap) (keptTargets heap [e]))"
  by (simp add: addRenderPass_def keptTargets_def infoOf_def passOf_def split: option.splits)

lemma fold_addRenderPass_eq:
  "fold (addRenderPass heap) es (infos, passes) =
     (infos @ map (infoOf heap) (keptTargets heap es),
      passes @ map (passOf heap) (keptTargets heap es))"
proof (induction es arbitrary: infos passes)
  case Nil
  then show ?case by (simp add: keptTargets_def)
next
  case (Cons e es)
  have "keptTargets heap (e # es) = keptTargets heap [e] @ keptTargets heap es"
    using keptTargets_append[of heap "[e]" es] by simp
  then show ?case by (simp add: addRenderPass_eq Cons.IH)
qed

lemma rebuildRenderPasses_eq:
  "rebuildRenderPasses heap es =
     (map (infoOf heap) (keptTargets heap es), map (passOf heap) (keptTargets heap es))"
  by (simp add: rebuildRenderPasses_def fold_addRenderPass_eq)

text \<open>Two entries that are kept, one before the other, are kept in this order.\<close>

lemma keptTargets_positions:
  assumes pq: "p < q" "q < length es"
    and ep: "drawTarget (es ! p) = Some b" "IsEnabled (heap b)"
    and eq: "drawTarget (es ! q) = Some a" "IsEnabled (heap a)"
  shows "\<exists>i j. i < j \<and> j < length (keptTargets heap es)
           \<and> keptTargets heap es ! i = (b, hasDependentDrawTargets (es ! p))
           \<and> keptTargets heap es ! j = (a, hasDependentDrawTargets (es ! q))"
proof -
  define A where "A = take p es"
  define B where "B = take (q - Suc p) (drop (Suc p) es)"
  define C where "C = drop (Suc q) es"
  have p: "p < length es" using pq by simp
  have d1: "es = A @ es ! p # drop (Suc p) es"
    unfolding A_def using id_take_nth_drop[OF p] .
  have q': "q - Suc p < length (drop (Suc p) es)" using pq by simp
  have nq: "drop (Suc p) es ! (q - Suc p) = es ! q" using pq by simp
  have "drop (Suc (q - Suc p)) (drop (Suc p) es) = C"
    using pq by (simp add: C_def)
  then have d2: "drop (Suc p) es = B @ es ! q # C"
    unfolding B_def using id_take_nth_drop[OF q'] nq by simp
  have es: "es = A @ [es ! p] @ B @ [es ! q] @ C"
    using d1 d2 by simp
  define K where "K = keptTargets heap"
  have k: "K es = K A @ [(b, hasDependentDrawTargets (es ! p))] @ K B
                  @ [(a, hasDependentDrawTargets (es ! q))] @ K C"
  proof -
    have sp: "keptTargets heap [es ! p] = [(b, hasDependentDrawTargets (es ! p))]"
      using ep by (rule keptTargets_single[of "es ! p" b heap])
    have sq: "keptTargets heap [es ! q] = [(a, hasDependentDrawTargets (es ! q))]"
      using eq by (rule keptTargets_single[of "es ! q" a heap])
    have "K es = K (A @ [es ! p] @ B @ [es ! q] @ C)" using es by simp
    then show ?thesis unfolding K_def by (simp only: keptTargets_append sp sq)
  qed
  define i where "i = length (K A)"
  define j where "j = length (K A) + Suc (length (K B))"
  have "i < j" by (simp add: i_def j_def)
  moreover have "j < length (K es)" by (simp add: k j_def)
  moreover have "K es ! i = (b, hasDependentDrawTargets (es ! p))"
    by (simp add: k i_def)
  moreover have "K es ! j = (a, hasDependentDrawTargets (es ! q))"
  proof -
    have "K es = (K A @ (b, hasDependentDrawTargets (es ! p)) # K B)
                  @ (a, hasDependentDrawTargets (es ! q)) # K C"
      by (simp add: k)
    moreover have "j = length (K A @ (b, hasDependentDrawTargets (es ! p)) # K B)"
      by (simp add: j_def)
    ultimately show ?thesis by (simp only: nth_append_length)
  qed
  ultimately show ?thesis unfolding K_def by blast
qed

text \<open>Every kept target comes from an entry.\<close>

lemma keptTargets_origin:
  assumes "(a, f) \<in> set (keptTargets heap es)"
  shows "\<exists>e\<in>set es. drawTarget e = Some a \<and> hasDependentDrawTargets e = f"
  using assms by (auto simp: keptTargets_def split: option.splits if_splits)

lemma sorted_dependency_positions:
  assumes x: "x < length dts" and y: "y < length dts"
    and dep: "dependsOn HP heap dts x y"
    and main: "acyclic (dependencyGraph HP heap dts)
               \<or> (\<exists>D scheduled. mainPass HP heap dts = Some (D, scheduled)
                     \<and> y \<in> set (map originalIndex scheduled))"
  shows "\<exists>result p q. SortDrawTargets HP heap dts = Some (result, [])
           \<and> p < q \<and> q < length result
           \<and> drawTarget (result ! p) = dts ! y
           \<and> hasDependentDrawTargets (result ! p)
           \<and> drawTarget (result ! q) = dts ! x"
proof -
  obtain D scheduled where
    mp: "mainPass HP heap dts = Some (D, scheduled)"
    and sort: "SortDrawTargets HP heap dts
         = Some (scheduled @ map (newEntry dts) (unscheduled (length dts) scheduled), [])"
    and d: "distinct (map originalIndex scheduled)"
    and t: "map drawTarget scheduled = map ((!) dts) (map originalIndex scheduled)"
    and ord: "\<forall>k<length scheduled. \<forall>j<length dts.
            dependsOn HP heap dts (originalIndex (scheduled ! k)) j
              \<longrightarrow> j \<in> set (take k (map originalIndex scheduled))"
    and stuck: "\<forall>d<length dts. d \<notin> set (map originalIndex scheduled)
            \<longrightarrow> (\<exists>j<length dts. dependsOn HP heap dts d j
                                  \<and> j \<notin> set (map originalIndex scheduled))"
    and flg: "\<forall>k<length scheduled. hasDependentDrawTargets (scheduled ! k)
            = (\<exists>d<length dts. dependsOn HP heap dts d (originalIndex (scheduled ! k)))"
    using sort_structure[of HP heap dts] by blast
  define I where "I = map originalIndex scheduled"
  define U where "U = unscheduled (length dts) scheduled"
  define result where "result = scheduled @ map (newEntry dts) U"
  have yI: "y \<in> set I"
  proof (cases "acyclic (dependencyGraph HP heap dts)")
    case True
    have "filter (\<lambda>i. i \<notin> set I) [0..<length dts] = []"
      unfolding I_def using acyclic_all_scheduled[OF True stuck] .
    then show ?thesis using y by (auto simp: filter_empty_conv)
  next
    case False
    then show ?thesis using main mp by (auto simp: I_def)
  qed
  then obtain p where p: "p < length scheduled" "I ! p = y"
    by (auto simp: in_set_conv_nth I_def)
  have dt: "drawTarget (scheduled ! k) = dts ! (I ! k)" if "k < length scheduled" for k
  proof -
    have "map drawTarget scheduled ! k = map ((!) dts) (map originalIndex scheduled) ! k"
      by (rule arg_cong[OF t])
    then show ?thesis using that by (simp add: I_def)
  qed
  have rp: "result ! p = scheduled ! p" using p(1) by (simp add: result_def nth_append)
  have c1: "drawTarget (result ! p) = dts ! y" using rp dt[OF p(1)] p(2) by simp
  have "hasDependentDrawTargets (scheduled ! p)
          = (\<exists>d<length dts. dependsOn HP heap dts d (originalIndex (scheduled ! p)))"
    using flg p(1) by simp
  moreover have "originalIndex (scheduled ! p) = y" using p by (simp add: I_def)
  ultimately have c2: "hasDependentDrawTargets (result ! p)" using x dep rp by auto
  have "\<exists>q. p < q \<and> q < length result \<and> drawTarget (result ! q) = dts ! x"
  proof (cases "x \<in> set I")
    case True
    then obtain q where q: "q < length scheduled" "I ! q = x"
      by (auto simp: in_set_conv_nth I_def)
    have "dependsOn HP heap dts (originalIndex (scheduled ! q)) y"
      using dep q by (simp add: I_def)
    then have "y \<in> set (take q I)"
      using ord[rule_format, OF q(1) y] by (simp add: I_def)
    then obtain p' where p': "p' < q" "p' < length I" "I ! p' = y"
      using position_before[of y q I] by blast
    have dI: "distinct I" using d by (simp add: I_def)
    have "I ! p' = I ! p" "p < length I" using p' p by (simp_all add: I_def)
    then have "p' = p" using nth_eq_iff_index_eq[OF dI p'(2), of p] by simp
    then have "p < q" using p' by simp
    moreover have "result ! q = scheduled ! q" using q(1) by (simp add: result_def nth_append)
    ultimately show ?thesis using q dt[OF q(1)] by (intro exI[of _ q]) (simp add: result_def)
  next
    case False
    then have "x \<in> set U" using x by (simp add: U_def unscheduled_def I_def)
    then obtain r where r: "r < length U" "U ! r = x" by (auto simp: in_set_conv_nth)
    define q where "q = length scheduled + r"
    have "result ! q = newEntry dts x"
      using r by (simp add: result_def q_def nth_append)
    moreover have "p < q" using p(1) by (simp add: q_def)
    moreover have "q < length result" using r by (simp add: result_def q_def)
    ultimately show ?thesis by (intro exI[of _ q]) simp
  qed
  then show ?thesis using sort c1 c2 unfolding result_def U_def by blast
qed

lemma sorted_flag_origin:
  assumes "SortDrawTargets HP heap dts = Some (result, errs)"
    and "e \<in> set result" and "hasDependentDrawTargets e"
  shows "\<exists>x y. x < length dts \<and> y < length dts \<and> drawTarget e = dts ! y
           \<and> dependsOn HP heap dts x y"
proof -
  obtain D scheduled where
    mp: "mainPass HP heap dts = Some (D, scheduled)"
    and sort: "SortDrawTargets HP heap dts
         = Some (scheduled @ map (newEntry dts) (unscheduled (length dts) scheduled), [])"
    and s: "set (map originalIndex scheduled) \<subseteq> {..<length dts}"
    and t: "map drawTarget scheduled = map ((!) dts) (map originalIndex scheduled)"
    and flg: "\<forall>k<length scheduled. hasDependentDrawTargets (scheduled ! k)
            = (\<exists>d<length dts. dependsOn HP heap dts d (originalIndex (scheduled ! k)))"
    using sort_structure[of HP heap dts] by blast
  have "e \<in> set scheduled \<or> e \<in> newEntry dts ` set (unscheduled (length dts) scheduled)"
    using assms(1,2) sort by auto
  then have "e \<in> set scheduled" using assms(3) by auto
  then obtain k where k: "k < length scheduled" "scheduled ! k = e"
    by (auto simp: in_set_conv_nth)
  have "map drawTarget scheduled ! k = map ((!) dts) (map originalIndex scheduled) ! k"
    by (rule arg_cong[OF t])
  then have dt: "drawTarget e = dts ! originalIndex e" using k by simp
  have "originalIndex e \<in> set (map originalIndex scheduled)" using k by auto
  then have b: "originalIndex e < length dts" using s by auto
  have "\<exists>d<length dts. dependsOn HP heap dts d (originalIndex e)"
    using flg k assms(3) by auto
  then show ?thesis using dt b by blast
qed

lemma Sync_rebuilds:
  assumes stale: "m_currentDrawTargetSetVersion task \<noteq> GetStateVersion scene"
    and params: "dirtyBits AND DirtyParams = 0 \<or> GetTaskParams scene \<noteq> None"
  shows "\<exists>exit task' ctx' dirtyBits' entries.
           Sync HP scene task ctx dirtyBits = Some (exit, task', ctx', dirtyBits')
           \<and> SortDrawTargets HP (drawTargetHeap scene) (GetDrawTargets scene)
               = Some (entries, [])
           \<and> map target (m_renderPassesInfo task')
               = map fst (keptTargets (drawTargetHeap scene) entries)
           \<and> map HasDependentDrawTargets (m_renderPasses task')
               = map snd (keptTargets (drawTargetHeap scene) entries)
           \<and> map GetDrawTarget (m_renderPasses task')
               = map (\<lambda>k. GetGlfDrawTarget (drawTargetHeap scene (fst k)))
                     (keptTargets (drawTargetHeap scene) entries)"
proof -
  define heap where "heap = drawTargetHeap scene"
  obtain task1 where p: "syncParams scene task dirtyBits = Some task1"
    using params by (cases "syncParams scene task dirtyBits") (auto simp: syncParams_None)
  define task1' where "task1' = syncRenderTags scene task1 dirtyBits"
  have st: "m_currentDrawTargetSetVersion task1' \<noteq> GetStateVersion scene"
    unfolding task1'_def using stale by (simp add: syncRenderTags_keeps syncParams_keeps[OF p])
  obtain D scheduled where
    "mainPass HP heap (GetDrawTargets scene) = Some (D, scheduled)"
    "SortDrawTargets HP heap (GetDrawTargets scene)
       = Some (scheduled @ map (newEntry (GetDrawTargets scene))
                               (unscheduled (length (GetDrawTargets scene)) scheduled), [])"
    using sort_structure[of HP heap "GetDrawTargets scene"] by blast
  then obtain entries where
    sort: "SortDrawTargets HP heap (GetDrawTargets scene) = Some (entries, [])"
    by blast
  define K where "K = keptTargets heap entries"
  define task2 where
    "task2 = task1'\<lparr>m_renderPassesInfo := map (infoOf heap) K,
                     m_renderPasses := map (passOf heap) K,
                     m_currentDrawTargetSetVersion := GetStateVersion scene\<rparr>"
  have d: "syncDrawTargetSet HP scene task1' = Some task2"
    using st sort
    by (simp add: syncDrawTargetSet_def Let_def GetSortedDrawTargets_def
        rebuildRenderPasses_eq task2_def K_def heap_def)
  from Sync_after_params[OF p d[unfolded task1'_def], of ctx]
  obtain exit task' ctx' dirtyBits' where
    s: "Sync HP scene task ctx dirtyBits = Some (exit, task', ctx', dirtyBits')"
    and sb: "sameBindings (m_renderPassesInfo task2, m_renderPasses task2)
                          (m_renderPassesInfo task', m_renderPasses task')"
    by blast
  have "map target (m_renderPassesInfo task') = map fst K"
    "map HasDependentDrawTargets (m_renderPasses task') = map snd K"
    "map GetDrawTarget (m_renderPasses task') = map (\<lambda>k. GetGlfDrawTarget (heap (fst k))) K"
    using sb by (simp_all add: sameBindings_def task2_def infoOf_def passOf_def comp_def)
  then show ?thesis using s sort unfolding K_def heap_def by blast
qed

lemma nth_of_maps:
  "map f xs = map g ys \<Longrightarrow> j < length ys \<Longrightarrow> f (xs ! j) = g (ys ! j)"
  by (metis length_map nth_map)

lemma upt_split:
  assumes "i \<le> j" "j \<le> n"
  shows "[i..<n] = [i..<j] @ [j..<n]"
proof -
  have "[i..<j + (n - j)] = [i..<j] @ [j..<j + (n - j)]"
    using assms(1) by (rule upt_add_eq_append)
  then show ?thesis using assms(2) by simp
qed

lemma upt_split_two:
  assumes "i < j" "j < n"
  shows "[0..<n] = [0..<i] @ [i] @ [Suc i..<j] @ [j] @ [Suc j..<n]"
proof -
  have "[0..<n] = [0..<i] @ [i..<n]"
    using assms by (intro upt_split) simp_all
  also have "[i..<n] = i # [Suc i..<n]" using assms by (simp add: upt_conv_Cons)
  also have "[Suc i..<n] = [Suc i..<j] @ [j..<n]"
    using assms by (intro upt_split) simp_all
  also have "[j..<n] = j # [Suc j..<n]" using assms by (simp add: upt_conv_Cons)
  finally show ?thesis by simp
qed

lemma Execute_closed:
  "Execute task
     = glSetup task
       @ concat (map (entryCalls task) [0..<length (m_renderPassesInfo task)])
       @ glRestore"
  by (simp add: Execute_def Let_def fold_executeRenderPass glSetup_def glRestore_def)

lemma Execute_split:
  assumes "i < j" "j < length (m_renderPassesInfo task)"
  shows "Execute task
     = glSetup task
       @ concat (map (entryCalls task) [0..<i])
       @ entryCalls task i
       @ concat (map (entryCalls task) [Suc i..<j])
       @ entryCalls task j
       @ concat (map (entryCalls task) [Suc j..<length (m_renderPassesInfo task)])
       @ glRestore"
  by (subst Execute_closed, subst upt_split_two[OF assms]) simp

lemma Resolve_in_entryCalls:
  assumes "Resolve i g \<in> set (entryCalls task k)"
  shows "k = i \<and> HasDependentDrawTargets (m_renderPasses task ! i)
         \<and> GetDrawTarget (m_renderPasses task ! i) = Some g"
  using assms by (auto simp: entryCalls_def split: option.splits if_splits)

lemma Resolve_in_Execute:
  assumes "Resolve i g \<in> set (Execute task)"
  shows "i < length (m_renderPassesInfo task)
         \<and> HasDependentDrawTargets (m_renderPasses task ! i)
         \<and> GetDrawTarget (m_renderPasses task ! i) = Some g"
proof -
  have "Resolve i g \<notin> set (glSetup task)" by (auto simp: glSetup_def)
  moreover have "Resolve i g \<notin> set glRestore" by (simp add: glRestore_def)
  ultimately obtain k where k: "k < length (m_renderPassesInfo task)"
    "Resolve i g \<in> set (entryCalls task k)"
    using assms unfolding Execute_closed by auto
  then show ?thesis using Resolve_in_entryCalls[OF k(2)] by simp
qed

text \<open>
  Claim C2, as the code has it. For every task, \<open>Execute\<close> sets the OpenGL state, then goes
  through the entries in the stored order and, for each entry in turn, binds its render pass
  state, executes the render pass, unbinds, and resolves the draw target of the render pass
  exactly when the flag of the render pass is true and the render pass has a draw target;
  the calls of an entry are complete before the first call of the next entry, and at the
  end the OpenGL state is restored. For the schedule that a \<open>Sync\<close> has rebuilt: when the
  draw target at index \<open>x\<close> depends on the one at index \<open>y\<close>, both are enabled, the one at
  \<open>y\<close> has a Glf draw target and was scheduled by the main pass of the sort (as every draw
  target is when the dependency graph is acyclic), then \<open>Execute\<close> draws the render pass of
  \<open>y\<close>, resolves its draw target at once, and draws the render pass of \<open>x\<close> later; and
  every draw target that \<open>Execute\<close> resolves is one that some draw target depends on.
\<close>

theorem execute_call_sequence:
  "Execute t
     = glSetup t @ concat (map (entryCalls t) [0..<length (m_renderPassesInfo t)]) @ glRestore
   \<and> (m_currentDrawTargetSetVersion task \<noteq> GetStateVersion scene
        \<and> (dirtyBits AND DirtyParams = 0 \<or> GetTaskParams scene \<noteq> None)
      \<longrightarrow>
        (\<exists>exit task' ctx' dirtyBits'.
           Sync HP scene task ctx dirtyBits = Some (exit, task', ctx', dirtyBits')
           \<and> (\<forall>x y a b g.
                 x < length (GetDrawTargets scene) \<and> y < length (GetDrawTargets scene)
                 \<and> dependsOn HP (drawTargetHeap scene) (GetDrawTargets scene) x y
                 \<and> (acyclic (dependencyGraph HP (drawTargetHeap scene) (GetDrawTargets scene))
                    \<or> (\<exists>D scheduled.
                          mainPass HP (drawTargetHeap scene) (GetDrawTargets scene)
                            = Some (D, scheduled)
                          \<and> y \<in> set (map originalIndex scheduled)))
                 \<and> GetDrawTargets scene ! x = Some a \<and> IsEnabled (drawTargetHeap scene a)
                 \<and> GetDrawTargets scene ! y = Some b \<and> IsEnabled (drawTargetHeap scene b)
                 \<and> GetGlfDrawTarget (drawTargetHeap scene b) = Some g
                 \<longrightarrow>
                   (\<exists>i j post. i < j \<and> j < length (m_renderPassesInfo task')
                      \<and> target (m_renderPassesInfo task' ! i) = b
                      \<and> target (m_renderPassesInfo task' ! j) = a
                      \<and> Execute task'
                          = glSetup task'
                            @ concat (map (entryCalls task') [0..<i])
                            @ [Bind i, ExecuteRenderPass i (GetRenderTags task'), Unbind i,
                               Resolve i g]
                            @ concat (map (entryCalls task') [Suc i..<j])
                            @ [Bind j, ExecuteRenderPass j (GetRenderTags task'), Unbind j]
                            @ post))
           \<and> (\<forall>i g.
                 Resolve i g \<in> set (Execute task')
                 \<longrightarrow>
                   i < length (m_renderPassesInfo task')
                   \<and> (\<exists>x y. x < length (GetDrawTargets scene) \<and> y < length (GetDrawTargets scene)
                         \<and> GetDrawTargets scene ! y = Some (target (m_renderPassesInfo task' ! i))
                         \<and> dependsOn HP (drawTargetHeap scene) (GetDrawTargets scene) x y))))"
proof (intro conjI impI)
  show "Execute t
     = glSetup t @ concat (map (entryCalls t) [0..<length (m_renderPassesInfo t)]) @ glRestore"
    by (rule Execute_closed)
next
  define heap where "heap = drawTargetHeap scene"
  define dts where "dts = GetDrawTargets scene"
  assume "m_currentDrawTargetSetVersion task \<noteq> GetStateVersion scene
        \<and> (dirtyBits AND DirtyParams = 0 \<or> GetTaskParams scene \<noteq> None)"
  then have stale: "m_currentDrawTargetSetVersion task \<noteq> GetStateVersion scene"
    and params: "dirtyBits AND DirtyParams = 0 \<or> GetTaskParams scene \<noteq> None"
    by simp_all
  from Sync_rebuilds[OF stale params, of HP ctx]
  obtain exit task' ctx' dirtyBits' entries where
    s: "Sync HP scene task ctx dirtyBits = Some (exit, task', ctx', dirtyBits')"
    and sort: "SortDrawTargets HP heap dts = Some (entries, [])"
    and mt: "map target (m_renderPassesInfo task') = map fst (keptTargets heap entries)"
    and mh: "map HasDependentDrawTargets (m_renderPasses task')
               = map snd (keptTargets heap entries)"
    and mg: "map GetDrawTarget (m_renderPasses task')
               = map (\<lambda>k. GetGlfDrawTarget (heap (fst k))) (keptTargets heap entries)"
    unfolding heap_def dts_def by blast
  define K where "K = keptTargets heap entries"
  have lK: "length (m_renderPassesInfo task') = length K"
    using arg_cong[OF mt, of length] by (simp add: K_def)
  have tK: "target (m_renderPassesInfo task' ! i) = fst (K ! i)"
    and hK: "HasDependentDrawTargets (m_renderPasses task' ! i) = snd (K ! i)"
    and gK: "GetDrawTarget (m_renderPasses task' ! i) = GetGlfDrawTarget (heap (fst (K ! i)))"
    if "i < length K" for i
    using nth_of_maps[OF mt] nth_of_maps[OF mh] nth_of_maps[OF mg] that
    by (simp_all add: K_def)
  have dep_clause: "\<exists>i j post. i < j \<and> j < length (m_renderPassesInfo task')
                      \<and> target (m_renderPassesInfo task' ! i) = b
                      \<and> target (m_renderPassesInfo task' ! j) = a
                      \<and> Execute task'
                          = glSetup task'
                            @ concat (map (entryCalls task') [0..<i])
                            @ [Bind i, ExecuteRenderPass i (GetRenderTags task'), Unbind i,
                               Resolve i g]
                            @ concat (map (entryCalls task') [Suc i..<j])
                            @ [Bind j, ExecuteRenderPass j (GetRenderTags task'), Unbind j]
                            @ post"
    if x: "x < length dts" and y: "y < length dts"
      and dep: "dependsOn HP heap dts x y"
      and main: "acyclic (dependencyGraph HP heap dts)
                 \<or> (\<exists>D scheduled. mainPass HP heap dts = Some (D, scheduled)
                       \<and> y \<in> set (map originalIndex scheduled))"
      and a: "dts ! x = Some a" "IsEnabled (heap a)"
      and b: "dts ! y = Some b" "IsEnabled (heap b)"
      and g: "GetGlfDrawTarget (heap b) = Some g"
    for x y a b g
  proof -
    from sorted_dependency_positions[OF x y dep main] sort
    obtain p q where pq: "p < q" "q < length entries"
      and ep: "drawTarget (entries ! p) = dts ! y" "hasDependentDrawTargets (entries ! p)"
      and eq: "drawTarget (entries ! q) = dts ! x"
      by auto
    have ep': "drawTarget (entries ! p) = Some b" using ep(1) b(1) by simp
    have eq': "drawTarget (entries ! q) = Some a" using eq a(1) by simp
    from keptTargets_positions[OF pq ep' b(2) eq' a(2)]
    obtain i j where ij: "i < j" "j < length K"
      and Ki: "K ! i = (b, hasDependentDrawTargets (entries ! p))"
      and Kj: "K ! j = (a, hasDependentDrawTargets (entries ! q))"
      unfolding K_def by blast
    have il: "i < length K" using ij by simp
    have ti: "target (m_renderPassesInfo task' ! i) = b" using tK[OF il] Ki by simp
    have tj: "target (m_renderPassesInfo task' ! j) = a" using tK[OF ij(2)] Kj by simp
    have "HasDependentDrawTargets (m_renderPasses task' ! i)"
      using hK[OF il] Ki ep(2) by simp
    moreover have "GetDrawTarget (m_renderPasses task' ! i) = Some g"
      using gK[OF il] Ki g by simp
    ultimately have Ei: "entryCalls task' i
        = [Bind i, ExecuteRenderPass i (GetRenderTags task'), Unbind i, Resolve i g]"
      by (simp add: entryCalls_def)
    obtain r where Ej: "entryCalls task' j
        = [Bind j, ExecuteRenderPass j (GetRenderTags task'), Unbind j] @ r"
      by (simp add: entryCalls_def)
    have jl: "j < length (m_renderPassesInfo task')" using ij(2) lK by simp
    have "Execute task'
            = glSetup task'
              @ concat (map (entryCalls task') [0..<i])
              @ [Bind i, ExecuteRenderPass i (GetRenderTags task'), Unbind i, Resolve i g]
              @ concat (map (entryCalls task') [Suc i..<j])
              @ [Bind j, ExecuteRenderPass j (GetRenderTags task'), Unbind j]
              @ (r @ concat (map (entryCalls task')
                               [Suc j..<length (m_renderPassesInfo task')])
                   @ glRestore)"
      using Execute_split[OF ij(1) jl] by (simp only: Ei Ej append_assoc)
    then show ?thesis using ij(1) jl ti tj by blast
  qed
  have res_clause: "i < length (m_renderPassesInfo task')
                   \<and> (\<exists>x y. x < length dts \<and> y < length dts
                         \<and> dts ! y = Some (target (m_renderPassesInfo task' ! i))
                         \<and> dependsOn HP heap dts x y)"
    if "Resolve i g \<in> set (Execute task')" for i g
  proof -
    have i: "i < length (m_renderPassesInfo task')"
      and f: "HasDependentDrawTargets (m_renderPasses task' ! i)"
      using Resolve_in_Execute[OF that] by simp_all
    have il: "i < length K" using i lK by simp
    have "K ! i = (target (m_renderPassesInfo task' ! i), True)"
      using tK[OF il] hK[OF il] f by (cases "K ! i") simp
    moreover have "K ! i \<in> set K" using il by simp
    ultimately have "(target (m_renderPassesInfo task' ! i), True) \<in> set (keptTargets heap entries)"
      by (simp add: K_def)
    from keptTargets_origin[OF this]
    obtain e where e: "e \<in> set entries"
      "drawTarget e = Some (target (m_renderPassesInfo task' ! i))"
      "hasDependentDrawTargets e"
      by auto
    from sorted_flag_origin[OF sort e(1) e(3)]
    obtain x y where "x < length dts" "y < length dts" "drawTarget e = dts ! y"
      "dependsOn HP heap dts x y"
      by blast
    then show ?thesis using i e(2) by (intro conjI exI[of _ x] exI[of _ y]) simp_all
  qed
  show "\<exists>exit task' ctx' dirtyBits'.
           Sync HP scene task ctx dirtyBits = Some (exit, task', ctx', dirtyBits')
           \<and> (\<forall>x y a b g.
                 x < length (GetDrawTargets scene) \<and> y < length (GetDrawTargets scene)
                 \<and> dependsOn HP (drawTargetHeap scene) (GetDrawTargets scene) x y
                 \<and> (acyclic (dependencyGraph HP (drawTargetHeap scene) (GetDrawTargets scene))
                    \<or> (\<exists>D scheduled.
                          mainPass HP (drawTargetHeap scene) (GetDrawTargets scene)
                            = Some (D, scheduled)
                          \<and> y \<in> set (map originalIndex scheduled)))
                 \<and> GetDrawTargets scene ! x = Some a \<and> IsEnabled (drawTargetHeap scene a)
                 \<and> GetDrawTargets scene ! y = Some b \<and> IsEnabled (drawTargetHeap scene b)
                 \<and> GetGlfDrawTarget (drawTargetHeap scene b) = Some g
                 \<longrightarrow>
                   (\<exists>i j post. i < j \<and> j < length (m_renderPassesInfo task')
                      \<and> target (m_renderPassesInfo task' ! i) = b
                      \<and> target (m_renderPassesInfo task' ! j) = a
                      \<and> Execute task'
                          = glSetup task'
                            @ concat (map (entryCalls task') [0..<i])
                            @ [Bind i, ExecuteRenderPass i (GetRenderTags task'), Unbind i,
                               Resolve i g]
                            @ concat (map (entryCalls task') [Suc i..<j])
                            @ [Bind j, ExecuteRenderPass j (GetRenderTags task'), Unbind j]
                            @ post))
           \<and> (\<forall>i g.
                 Resolve i g \<in> set (Execute task')
                 \<longrightarrow>
                   i < length (m_renderPassesInfo task')
                   \<and> (\<exists>x y. x < length (GetDrawTargets scene) \<and> y < length (GetDrawTargets scene)
                         \<and> GetDrawTargets scene ! y = Some (target (m_renderPassesInfo task' ! i))
                         \<and> dependsOn HP (drawTargetHeap scene) (GetDrawTargets scene) x y))"
    apply (intro exI[of _ exit] exI[of _ task'] exI[of _ ctx'] exI[of _ dirtyBits'] conjI)
    subgoal by (rule s)
    subgoal using dep_clause unfolding heap_def dts_def by blast
    subgoal using res_clause unfolding heap_def dts_def by blast
    done
qed

text \<open>
  At the chain, from a new task: the draw target at index 0 (address 1) depends on the one
  at index 1 (address 0), the graph is acyclic, and \<open>Execute\<close> draws the render pass of
  address 0, resolves its draw target, and draws the render pass of address 1, which it
  does not resolve.
\<close>

theorem execute_call_sequence_witness:
  "m_currentDrawTargetSetVersion HdxDrawTargetTask_new \<noteq> GetStateVersion chainScene
   \<and> GetTaskParams chainScene \<noteq> None
   \<and> dependsOn textPrefix chainHeap chainTargets 0 1
   \<and> acyclic (dependencyGraph textPrefix chainHeap chainTargets)
   \<and> chainTargets ! 0 = Some 1 \<and> IsEnabled (chainHeap 1)
   \<and> chainTargets ! 1 = Some 0 \<and> IsEnabled (chainHeap 0)
   \<and> GetGlfDrawTarget (chainHeap 0) = Some 10
   \<and> (\<exists>exit task' ctx' dirtyBits' i j post.
         Sync textPrefix chainScene HdxDrawTargetTask_new Map.empty DirtyParams
           = Some (exit, task', ctx', dirtyBits')
         \<and> i < j \<and> j < length (m_renderPassesInfo task')
         \<and> target (m_renderPassesInfo task' ! i) = 0
         \<and> target (m_renderPassesInfo task' ! j) = 1
         \<and> Execute task'
             = glSetup task'
               @ concat (map (entryCalls task') [0..<i])
               @ [Bind i, ExecuteRenderPass i (GetRenderTags task'), Unbind i, Resolve i 10]
               @ concat (map (entryCalls task') [Suc i..<j])
               @ [Bind j, ExecuteRenderPass j (GetRenderTags task'), Unbind j]
               @ post)
   \<and> Execute chainTask
       = [glEnable GL_SAMPLE_ALPHA_TO_COVERAGE, glEnable GL_PROGRAM_POINT_SIZE,
          glFrontFace GL_CW,
          Bind 0, ExecuteRenderPass 0 [], Unbind 0, Resolve 0 10,
          Bind 1, ExecuteRenderPass 1 [], Unbind 1,
          glDisable GL_SAMPLE_ALPHA_TO_COVERAGE, glDisable GL_PROGRAM_POINT_SIZE,
          glDisable GL_POLYGON_OFFSET_FILL, glFrontFace GL_CCW]"
proof -
  have sc: "drawTargetHeap chainScene = chainHeap" "GetDrawTargets chainScene = chainTargets"
    by (simp_all add: chainScene_def exampleScene_def)
  have stale: "m_currentDrawTargetSetVersion HdxDrawTargetTask_new \<noteq> GetStateVersion chainScene"
    by (simp add: HdxDrawTargetTask_new_def chainScene_def exampleScene_def)
  have params: "GetTaskParams chainScene \<noteq> None"
    by (simp add: chainScene_def exampleScene_def)
  have dep: "dependsOn textPrefix chainHeap chainTargets 0 1" by code_simp
  have tg: "chainTargets ! 0 = Some 1" "chainTargets ! 1 = Some 0"
    by (simp_all add: chainTargets_def)
  have en: "IsEnabled (chainHeap 1)" "IsEnabled (chainHeap 0)"
    by (simp_all add: chainHeap_def exampleTarget_def)
  have glf: "GetGlfDrawTarget (chainHeap 0) = Some 10"
    by (simp add: chainHeap_def exampleTarget_def)
  have len: "0 < length chainTargets" "1 < length chainTargets"
    by (simp_all add: chainTargets_def)
  have v: "glSetup chainTask
           @ concat (map (entryCalls chainTask) [0..<length (m_renderPassesInfo chainTask)])
           @ glRestore
       = [glEnable GL_SAMPLE_ALPHA_TO_COVERAGE, glEnable GL_PROGRAM_POINT_SIZE,
          glFrontFace GL_CW,
          Bind 0, ExecuteRenderPass 0 [], Unbind 0, Resolve 0 10,
          Bind 1, ExecuteRenderPass 1 [], Unbind 1,
          glDisable GL_SAMPLE_ALPHA_TO_COVERAGE, glDisable GL_PROGRAM_POINT_SIZE,
          glDisable GL_POLYGON_OFFSET_FILL, glFrontFace GL_CCW]"
    by code_simp
  note inst = execute_call_sequence[where t = chainTask and task = HdxDrawTargetTask_new
      and scene = chainScene and dirtyBits = DirtyParams and HP = textPrefix
      and ctx = Map.empty]
  have closed: "Execute chainTask
       = [glEnable GL_SAMPLE_ALPHA_TO_COVERAGE, glEnable GL_PROGRAM_POINT_SIZE,
          glFrontFace GL_CW,
          Bind 0, ExecuteRenderPass 0 [], Unbind 0, Resolve 0 10,
          Bind 1, ExecuteRenderPass 1 [], Unbind 1,
          glDisable GL_SAMPLE_ALPHA_TO_COVERAGE, glDisable GL_PROGRAM_POINT_SIZE,
          glDisable GL_POLYGON_OFFSET_FILL, glFrontFace GL_CCW]"
    using inst v by simp
  from inst stale params
  obtain exit task' ctx' dirtyBits' where
    s: "Sync textPrefix chainScene HdxDrawTargetTask_new Map.empty DirtyParams
          = Some (exit, task', ctx', dirtyBits')"
    and d: "\<forall>x y a b g.
                 x < length chainTargets \<and> y < length chainTargets
                 \<and> dependsOn textPrefix chainHeap chainTargets x y
                 \<and> (acyclic (dependencyGraph textPrefix chainHeap chainTargets)
                    \<or> (\<exists>D scheduled.
                          mainPass textPrefix chainHeap chainTargets = Some (D, scheduled)
                          \<and> y \<in> set (map originalIndex scheduled)))
                 \<and> chainTargets ! x = Some a \<and> IsEnabled (chainHeap a)
                 \<and> chainTargets ! y = Some b \<and> IsEnabled (chainHeap b)
                 \<and> GetGlfDrawTarget (chainHeap b) = Some g
                 \<longrightarrow>
                   (\<exists>i j post. i < j \<and> j < length (m_renderPassesInfo task')
                      \<and> target (m_renderPassesInfo task' ! i) = b
                      \<and> target (m_renderPassesInfo task' ! j) = a
                      \<and> Execute task'
                          = glSetup task'
                            @ concat (map (entryCalls task') [0..<i])
                            @ [Bind i, ExecuteRenderPass i (GetRenderTags task'), Unbind i,
                               Resolve i g]
                            @ concat (map (entryCalls task') [Suc i..<j])
                            @ [Bind j, ExecuteRenderPass j (GetRenderTags task'), Unbind j]
                            @ post)"
    unfolding sc by blast
  from d[rule_format, of 0 1 1 0 10] len dep chain_acyclic tg en glf
  obtain i j post where "i < j" "j < length (m_renderPassesInfo task')"
    "target (m_renderPassesInfo task' ! i) = 0"
    "target (m_renderPassesInfo task' ! j) = 1"
    "Execute task'
       = glSetup task'
         @ concat (map (entryCalls task') [0..<i])
         @ [Bind i, ExecuteRenderPass i (GetRenderTags task'), Unbind i, Resolve i 10]
         @ concat (map (entryCalls task') [Suc i..<j])
         @ [Bind j, ExecuteRenderPass j (GetRenderTags task'), Unbind j]
         @ post"
    by auto
  then have "\<exists>exit task' ctx' dirtyBits' i j post.
         Sync textPrefix chainScene HdxDrawTargetTask_new Map.empty DirtyParams
           = Some (exit, task', ctx', dirtyBits')
         \<and> i < j \<and> j < length (m_renderPassesInfo task')
         \<and> target (m_renderPassesInfo task' ! i) = 0
         \<and> target (m_renderPassesInfo task' ! j) = 1
         \<and> Execute task'
             = glSetup task'
               @ concat (map (entryCalls task') [0..<i])
               @ [Bind i, ExecuteRenderPass i (GetRenderTags task'), Unbind i, Resolve i 10]
               @ concat (map (entryCalls task') [Suc i..<j])
               @ [Bind j, ExecuteRenderPass j (GetRenderTags task'), Unbind j]
               @ post"
    using s by blast
  then show ?thesis
    using stale params dep chain_acyclic tg en glf closed by simp
qed

text \<open>
  The claim C2 as it is written fails in two ways. A render pass that has no Glf draw
  target is not resolved: after \<open>Sync\<close> of the chain whose first draw target has none yet,
  the flag of the first render pass is true and \<open>Execute\<close> resolves nothing. And a draw
  target on a cycle is not resolved: in the scene of three draw targets the one at index 1
  depends on the one at index 0 (address 0), both are enabled and have a Glf draw target,
  and \<open>Execute\<close> draws the render pass of address 0 at position 1 and resolves only the
  render pass at position 0.
\<close>

theorem no_resolve_counterexample:
  "map_option
     (\<lambda>(exit, task, ctx, dirtyBits).
        (map HasDependentDrawTargets (m_renderPasses task), Execute task))
     (Sync textPrefix pendingScene HdxDrawTargetTask_new Map.empty DirtyParams)
   = Some ([True, False],
           [glEnable GL_SAMPLE_ALPHA_TO_COVERAGE, glEnable GL_PROGRAM_POINT_SIZE,
            glFrontFace GL_CW,
            Bind 0, ExecuteRenderPass 0 [], Unbind 0,
            Bind 1, ExecuteRenderPass 1 [], Unbind 1,
            glDisable GL_SAMPLE_ALPHA_TO_COVERAGE, glDisable GL_PROGRAM_POINT_SIZE,
            glDisable GL_POLYGON_OFFSET_FILL, glFrontFace GL_CCW])
   \<and> dependsOn textPrefix cycleHeap cycleTargets 1 0
   \<and> IsEnabled (cycleHeap 0) \<and> IsEnabled (cycleHeap 1)
   \<and> GetGlfDrawTarget (cycleHeap 0) = Some 10
   \<and> map_option
        (\<lambda>(exit, task, ctx, dirtyBits).
           (map target (m_renderPassesInfo task),
            map HasDependentDrawTargets (m_renderPasses task), Execute task))
        (Sync textPrefix cycleScene HdxDrawTargetTask_new Map.empty DirtyParams)
      = Some ([2, 0, 1], [True, False, False],
              [glEnable GL_SAMPLE_ALPHA_TO_COVERAGE, glEnable GL_PROGRAM_POINT_SIZE,
               glFrontFace GL_CW,
               Bind 0, ExecuteRenderPass 0 [], Unbind 0, Resolve 0 12,
               Bind 1, ExecuteRenderPass 1 [], Unbind 1,
               Bind 2, ExecuteRenderPass 2 [], Unbind 2,
               glDisable GL_SAMPLE_ALPHA_TO_COVERAGE, glDisable GL_PROGRAM_POINT_SIZE,
               glDisable GL_POLYGON_OFFSET_FILL, glFrontFace GL_CCW])"
proof -
  have a: "map_option
     (\<lambda>(exit, task, ctx, dirtyBits).
        (map HasDependentDrawTargets (m_renderPasses task), Execute task))
     (Sync textPrefix pendingScene HdxDrawTargetTask_new Map.empty DirtyParams)
   = Some ([True, False],
           [glEnable GL_SAMPLE_ALPHA_TO_COVERAGE, glEnable GL_PROGRAM_POINT_SIZE,
            glFrontFace GL_CW,
            Bind 0, ExecuteRenderPass 0 [], Unbind 0,
            Bind 1, ExecuteRenderPass 1 [], Unbind 1,
            glDisable GL_SAMPLE_ALPHA_TO_COVERAGE, glDisable GL_PROGRAM_POINT_SIZE,
            glDisable GL_POLYGON_OFFSET_FILL, glFrontFace GL_CCW])"
    by code_simp
  have b: "dependsOn textPrefix cycleHeap cycleTargets 1 0" by code_simp
  have c: "IsEnabled (cycleHeap 0)" "IsEnabled (cycleHeap 1)"
    "GetGlfDrawTarget (cycleHeap 0) = Some 10"
    by (simp_all add: cycleHeap_def exampleTarget_def)
  have d: "map_option
        (\<lambda>(exit, task, ctx, dirtyBits).
           (map target (m_renderPassesInfo task),
            map HasDependentDrawTargets (m_renderPasses task), Execute task))
        (Sync textPrefix cycleScene HdxDrawTargetTask_new Map.empty DirtyParams)
      = Some ([2, 0, 1], [True, False, False],
              [glEnable GL_SAMPLE_ALPHA_TO_COVERAGE, glEnable GL_PROGRAM_POINT_SIZE,
               glFrontFace GL_CW,
               Bind 0, ExecuteRenderPass 0 [], Unbind 0, Resolve 0 12,
               Bind 1, ExecuteRenderPass 1 [], Unbind 1,
               Bind 2, ExecuteRenderPass 2 [], Unbind 2,
               glDisable GL_SAMPLE_ALPHA_TO_COVERAGE, glDisable GL_PROGRAM_POINT_SIZE,
               glDisable GL_POLYGON_OFFSET_FILL, glFrontFace GL_CCW])"
    by code_simp
  show ?thesis using a b c d by simp
qed

end
